theory Spec2Isabelle
  imports Main "HOL-Library.Word"
begin

unbundle bit_operations_syntax

section \<open>Data model\<close>

text \<open>
  The C++ type \<open>uint\<close> is an unsigned 32-bit integer: arithmetic wraps modulo \<open>2 ^ 32\<close>.
  \<open>w >> i\<close> is \<open>drop_bit i w\<close> and \<open>w << i\<close> is \<open>push_bit i w\<close>; C++ defines both only for
  shift counts below 32, which is the case whenever the code length and the number of
  matrix rows are at most 32. A \<open>vector< uint >\<close> is a list, taken to have fewer than
  \<open>2 ^ 32\<close> elements, so that a \<open>uint\<close> counter running up to its size does not wrap; such
  counters are natural numbers. A loop \<open>for (i = 0; i < v.size(); i++)\<close> that appends one
  element per step is a \<open>map\<close> or a \<open>filter\<close>; a loop that updates variables is a \<open>fold\<close>
  over the indices; the \<open>while\<close> loops are recursive functions.
\<close>

type_synonym uint = "32 word"

definition UINT_MAX :: uint where
  "UINT_MAX = - 1"

text \<open>The class of \<open>cyclic_codes.h\<close>; \<open>cyclic_codes_2.h\<close> adds the field \<open>max_burst_length\<close>.\<close>

record CyclicCode =
  generator :: "uint list"
  parity_check :: "uint list"
  code_words :: "uint list"
  code_length :: uint
  min_distance :: uint

record CyclicCode2 = CyclicCode +
  max_burst_length :: uint

text \<open>An out-of-range \<open>vector::at\<close> throws \<open>std::out_of_range\<close>.\<close>

datatype error = OutOfRange

section \<open>Functions shared by both files\<close>

text \<open>\<open>find_power\<close>: repeated multiplication in \<open>uint\<close>.\<close>

definition find_power :: "uint \<Rightarrow> uint \<Rightarrow> uint" where
  "find_power base exponent =
     (if exponent = 0 then 1
      else fold (\<lambda>i result. result * base) [0..<unat exponent] 1)"

text \<open>\<open>hamming_distance\<close>: counts the differing places below \<open>code_length\<close>.\<close>

definition hamming_distance :: "'a CyclicCode_scheme \<Rightarrow> uint \<Rightarrow> uint \<Rightarrow> uint" where
  "hamming_distance c first_word second_word =
     (let places_differ = first_word XOR second_word
      in fold (\<lambda>place_value hd. hd + (drop_bit place_value places_differ AND 1))
           [0..<unat (code_length c)] 0)"

text \<open>
  \<open>is_code_word\<close>: the inner loop computes the dot product of the word with one row of
  the parity check matrix, the outer loop collects the products, and the last loop tests
  whether every product is zero.
\<close>

definition dot_product :: "'a CyclicCode_scheme \<Rightarrow> uint \<Rightarrow> nat \<Rightarrow> uint" where
  "dot_product c word col =
     fold (\<lambda>row dp.
             let word_coordinate = drop_bit row word AND 1;
                 basis_vector_coordinate = drop_bit row (parity_check c ! col) AND 1;
                 this_term = word_coordinate AND basis_vector_coordinate
             in dp XOR this_term)
          [0..<unat (code_length c)] 0"

definition is_code_word :: "'a CyclicCode_scheme \<Rightarrow> uint \<Rightarrow> bool" where
  "is_code_word c word =
     (let vector_product = map (dot_product c word) [0..<length (parity_check c)]
      in fold (\<lambda>this_word is_word. if vector_product ! this_word \<noteq> 0 then False else is_word)
           [0..<length vector_product] True)"

text \<open>
  \<open>encode_word\<close>: the sum of the generator rows selected by the bits of the word, bit
  \<open>place_value\<close> selecting row \<open>size - 1 - place_value\<close>.
\<close>

definition encode_word :: "'a CyclicCode_scheme \<Rightarrow> uint \<Rightarrow> uint" where
  "encode_word c word =
     fold (\<lambda>place_value encoded_word.
             if (drop_bit place_value word AND 1) = 1
             then encoded_word XOR generator c ! (length (generator c) - 1 - place_value)
             else encoded_word)
          [0..<length (generator c)] 0"

text \<open>
  The constructor. The first loop tests every \<open>i\<close> below \<open>find_power(2, code_length)\<close> in
  increasing order and appends the code words; the second loop takes the least weight of a
  nonzero code word, starting from \<open>UINT_MAX\<close>. \<open>is_code_word\<close> and \<open>hamming_distance\<close>
  read only \<open>parity_check\<close> and \<open>code_length\<close>, which are initialised before the body runs.
\<close>

definition make_code_words :: "'a CyclicCode_scheme \<Rightarrow> uint list" where
  "make_code_words c =
     filter (is_code_word c) (map of_nat [0..<unat (find_power 2 (code_length c))])"

definition make_min_distance :: "'a CyclicCode_scheme \<Rightarrow> uint list \<Rightarrow> uint" where
  "make_min_distance c cws =
     fold (\<lambda>word distance.
             if word > 0
             then (let word_weight = hamming_distance c 0 word
                   in if word_weight < distance then word_weight else distance)
             else distance)
          cws UINT_MAX"

definition new_CyclicCode :: "uint list \<Rightarrow> uint list \<Rightarrow> uint \<Rightarrow> CyclicCode" where
  "new_CyclicCode param_generator param_parity_check param_code_length =
     (let c0 = \<lparr>generator = param_generator, parity_check = param_parity_check,
                code_words = [], code_length = param_code_length, min_distance = 0\<rparr>;
          cws = make_code_words c0
      in c0\<lparr>code_words := cws, min_distance := make_min_distance c0 cws\<rparr>)"

definition new_CyclicCode2 :: "uint list \<Rightarrow> uint list \<Rightarrow> uint \<Rightarrow> CyclicCode2" where
  "new_CyclicCode2 param_generator param_parity_check param_code_length =
     (let c0 = \<lparr>generator = param_generator, parity_check = param_parity_check,
                code_words = [], code_length = param_code_length, min_distance = 0,
                max_burst_length = 0\<rparr>;
          cws = make_code_words c0
      in c0\<lparr>code_words := cws, min_distance := make_min_distance c0 cws,
            max_burst_length := 3\<rparr>)"

text \<open>
  The place values of the set bits of a word below a length, in increasing order, and the
  word rebuilt from a list of place values by adding \<open>find_power(2, place_value)\<close>.
  Place values are \<open>uint\<close>, as in the source.
\<close>

definition bit_place_values_of :: "uint \<Rightarrow> nat \<Rightarrow> uint list" where
  "bit_place_values_of word n =
     map of_nat (filter (\<lambda>i. (drop_bit i word AND 1) = 1) [0..<n])"

definition word_of_place_values :: "uint list \<Rightarrow> uint" where
  "word_of_place_values pvs =
     fold (\<lambda>place_value cyclic_shift. cyclic_shift + find_power 2 place_value) pvs 0"

text \<open>
  \<open>get_cyclic_shifts\<close> (\<open>cyclic_codes_2.h\<close>; \<open>decode_word\<close> of \<open>cyclic_codes.h\<close> has the same
  loops inline, on \<open>code_length\<close>): the word itself, then for \<open>i = 1 .. word_length - 1\<close>
  every place value is advanced by one modulo the length and the word is rebuilt.
\<close>

definition get_cyclic_shifts :: "uint \<Rightarrow> uint \<Rightarrow> uint list" where
  "get_cyclic_shifts word word_length =
     (let n = unat word_length;
          step = (\<lambda>i (bit_place_values, cyclic_shifts).
                    let advanced = map (\<lambda>pv. (pv + 1) mod word_length) bit_place_values
                    in (advanced, cyclic_shifts @ [word_of_place_values advanced]))
      in snd (fold step [1..<n] (bit_place_values_of word n, [word])))"

text \<open>
  \<open>get_transpose\<close>: \<open>code_length\<close> zero rows; then for every row of the matrix and every
  column from \<open>code_length - 1\<close> down to 0, a set bit adds
  \<open>find_power(2, num_code_words - old_row - 1)\<close> to row \<open>code_length - col - 1\<close>.
\<close>

definition get_transpose :: "uint list \<Rightarrow> uint \<Rightarrow> uint list" where
  "get_transpose matrix n =
     (let num_code_words = (of_nat (length matrix) :: uint)
      in fold (\<lambda>old_row matrix_transpose.
                 fold (\<lambda>col mt.
                         let new_row = unat n - col - 1;
                             place_holder = drop_bit col (matrix ! old_row) AND 1;
                             place_value = num_code_words - of_nat old_row - 1
                         in if place_holder = 1
                            then mt[new_row := mt ! new_row + find_power 2 place_value]
                            else mt)
                      (rev [0..<unat n]) matrix_transpose)
              [0..<length matrix] (replicate (unat n) 0))"

text \<open>
  The syndrome of one word: the XOR of the rows of the parity transpose selected by the
  bits of the word, bit \<open>place_value\<close> selecting row \<open>size - 1 - place_value\<close> (the inner
  loop of the syndrome computation in both files).
\<close>

definition syndrome_of :: "uint list \<Rightarrow> uint \<Rightarrow> uint" where
  "syndrome_of parity_transpose w =
     fold (\<lambda>place_value syndrome.
             if (drop_bit place_value w AND 1) = 1
             then syndrome XOR parity_transpose ! (length parity_transpose - 1 - place_value)
             else syndrome)
          [0..<length parity_transpose] 0"

text \<open>
  The syndrome list of \<open>decode_word\<close> in \<open>cyclic_codes.h\<close>: the syndromes of the cyclic
  shifts in the order in which they were produced.
\<close>

definition syndromes_1 :: "'a CyclicCode_scheme \<Rightarrow> uint \<Rightarrow> uint list" where
  "syndromes_1 c received_word =
     (let received_cyclic_shifts = get_cyclic_shifts received_word (code_length c);
          parity_transpose = get_transpose (parity_check c) (code_length c)
      in map (syndrome_of parity_transpose) received_cyclic_shifts)"

text \<open>
  \<open>get_syndromes\<close> of \<open>cyclic_codes_2.h\<close>: the shifts are first reordered, the unshifted
  word followed by the others from the last to the first.
\<close>

definition get_syndromes :: "'a CyclicCode_scheme \<Rightarrow> uint \<Rightarrow> uint list" where
  "get_syndromes c received_word =
     (let cyclic_shifts = get_cyclic_shifts received_word (code_length c);
          received_cyclic_shifts =
            cyclic_shifts ! 0 # map (\<lambda>i. cyclic_shifts ! i) (rev [1..<length cyclic_shifts]);
          parity_transpose = get_transpose (parity_check c) (code_length c)
      in map (syndrome_of parity_transpose) received_cyclic_shifts)"

text \<open>
  \<open>get_burst_length\<close>: over the cyclic shifts of the syndrome, the least span from the
  lowest to the highest set bit; a shift with no set bit resets the result to 0.
\<close>

definition get_burst_length :: "uint \<Rightarrow> uint \<Rightarrow> uint" where
  "get_burst_length syndrome syndrome_length =
     (let cyclic_shifts = get_cyclic_shifts syndrome syndrome_length
      in fold (\<lambda>j burst_length.
                 let bit_place_values =
                       bit_place_values_of (cyclic_shifts ! j) (unat syndrome_length)
                 in if bit_place_values \<noteq> []
                    then (let largest_pv = bit_place_values ! (length bit_place_values - 1);
                              smallest_pv = bit_place_values ! 0;
                              this_burst_length = largest_pv - smallest_pv + 1
                          in if this_burst_length < burst_length
                             then this_burst_length else burst_length)
                    else 0)
              [0..<length cyclic_shifts] UINT_MAX)"

text \<open>
  \<open>nearest_neighbor\<close> (\<open>cyclic_codes_2.h\<close>; the fallback branch of \<open>decode_word\<close> in
  \<open>cyclic_codes.h\<close> is the same code): the coset of the received word, its first element
  of least weight, and the received word minus that element. \<open>at(0)\<close> throws on an empty
  coset.
\<close>

definition nearest_neighbor :: "'a CyclicCode_scheme \<Rightarrow> uint \<Rightarrow> error + uint" where
  "nearest_neighbor c received_word =
     (let received_word_coset = map (\<lambda>w. received_word XOR w) (code_words c)
      in if received_word_coset = [] then Inl OutOfRange
         else
           (let (least_hw, error_word) =
                  fold (\<lambda>i (least_hw, error_word).
                          let this_hw = hamming_distance c 0 (received_word_coset ! i)
                          in if this_hw < least_hw
                             then (this_hw, received_word_coset ! i)
                             else (least_hw, error_word))
                       [0..<length received_word_coset] (UINT_MAX, received_word_coset ! 0)
            in Inr (received_word XOR error_word)))"

text \<open>
  The amount by which a syndrome is shifted left, \<open>code_length - parity_check.size()\<close>,
  computed in the 64-bit unsigned type of \<open>size()\<close>.
\<close>

definition align_shift :: "'a CyclicCode_scheme \<Rightarrow> nat" where
  "align_shift c =
     unat ((ucast (code_length c) :: 64 word) - of_nat (length (parity_check c)))"

section \<open>Decoding in \<open>cyclic_codes.h\<close>\<close>

text \<open>
  The search for a light syndrome: \<open>while (!found_syndrome && which_syndrome < size)\<close>,
  on the pair of the flag and the index.
\<close>

function scan_weight :: "'a CyclicCode_scheme \<Rightarrow> uint list \<Rightarrow> uint \<Rightarrow> bool \<times> nat \<Rightarrow> bool \<times> nat" where
  "scan_weight c syndromes bound (found, which) =
     (if \<not> found \<and> which < length syndromes
      then scan_weight c syndromes bound
             (if hamming_distance c 0 (syndromes ! which) \<le> bound
              then (True, which) else (found, which + 1))
      else (found, which))"
  by pat_completeness auto
termination
  by (relation "measure (\<lambda>(c, syndromes, bound, found, which).
        (length syndromes - which) + (if found then 0 else 1))") auto

text \<open>
  \<open>decode_word\<close>. The result is the returned word and whether the diagnostic dump was
  printed (it is when the decoded word fails \<open>is_code_word\<close>; the fallback branch returns
  before that test).
\<close>

definition decode_word :: "CyclicCode \<Rightarrow> uint \<Rightarrow> error + (uint \<times> bool)" where
  "decode_word c received_word =
     (let syndromes = syndromes_1 c received_word;
          bound = (min_distance c - 1) div 2;
          (found, which) = scan_weight c syndromes bound (False, 0)
      in if \<not> found
         then (case nearest_neighbor c received_word of
                 Inl e \<Rightarrow> Inl e
               | Inr decoded_word \<Rightarrow> Inr (decoded_word, False))
         else
           (let aligned = push_bit (align_shift c) (syndromes ! which);
                shift_amount = code_length c - of_nat which;
                syndrome_bit_place_values =
                  map (\<lambda>pv. (pv + shift_amount) mod code_length c)
                    (bit_place_values_of aligned (unat (code_length c)));
                shifted_syndrome = word_of_place_values syndrome_bit_place_values;
                decoded_word = received_word XOR shifted_syndrome
            in Inr (decoded_word, \<not> is_code_word c decoded_word)))"

section \<open>Decoding in \<open>cyclic_codes_2.h\<close>\<close>

text \<open>
  The variables of the burst search. \<open>scans\<close> is not in the source: it records, for every
  pass of the outer loop, how many times the inner loop ran in it.
\<close>

record search_state =
  found_syndrome :: bool
  light_syndrome :: uint
  light_syndrome_pos :: nat
  which_syndrome :: nat
  scans :: "nat list"

function inner_scan :: "uint list \<Rightarrow> uint list \<Rightarrow> uint \<Rightarrow> search_state \<Rightarrow> search_state" where
  "inner_scan syndromes syndrome_burst_lengths desired_burst_length st =
     (if \<not> found_syndrome st \<and> which_syndrome st < length syndromes
      then inner_scan syndromes syndrome_burst_lengths desired_burst_length
             ((if syndrome_burst_lengths ! which_syndrome st = desired_burst_length
               then st\<lparr>found_syndrome := True,
                       light_syndrome := syndromes ! which_syndrome st,
                       light_syndrome_pos := which_syndrome st\<rparr>
               else st)\<lparr>which_syndrome := which_syndrome st + 1\<rparr>)
      else st)"
  by pat_completeness auto
termination
  by (relation "measure (\<lambda>(syndromes, bls, d, st). length syndromes - which_syndrome st)") auto

text \<open>
  The outer loop, \<open>while (desired_burst_length != UINT_MAX)\<close>: the counter is decremented
  in \<open>uint\<close> and the loop ends when it wraps around below 0.
\<close>

function outer_search :: "uint list \<Rightarrow> uint list \<Rightarrow> uint \<Rightarrow> search_state \<Rightarrow> search_state" where
  "outer_search syndromes syndrome_burst_lengths desired_burst_length st =
     (if desired_burst_length \<noteq> UINT_MAX
      then (let st' = inner_scan syndromes syndrome_burst_lengths desired_burst_length st
            in outer_search syndromes syndrome_burst_lengths (desired_burst_length - 1)
                 (st'\<lparr>which_syndrome := 0, scans := scans st' @ [which_syndrome st']\<rparr>))
      else st)"
  by pat_completeness auto
termination
proof (relation "measure (\<lambda>(syndromes, bls, d, st). unat (d + 1))")
  show "wf (measure (\<lambda>(syndromes, bls, d :: uint, st). unat (d + 1)))"
    by simp
next
  fix syndromes syndrome_burst_lengths :: "uint list"
    and desired_burst_length :: uint and st x :: search_state
  assume "desired_burst_length \<noteq> UINT_MAX"
  then have "desired_burst_length + 1 \<noteq> 0"
    unfolding UINT_MAX_def by (metis add.commute add_eq_0_iff)
  then have "unat (desired_burst_length + 1) = Suc (unat desired_burst_length)"
    using unatSuc [of desired_burst_length] by (simp add: add.commute)
  then have "unat (desired_burst_length - 1 + 1) < unat (desired_burst_length + 1)"
    by simp
  then show "((syndromes, syndrome_burst_lengths, desired_burst_length - 1,
        x\<lparr>which_syndrome := 0, scans := scans x @ [which_syndrome x]\<rparr>),
       syndromes, syndrome_burst_lengths, desired_burst_length, st)
      \<in> measure (\<lambda>(syndromes, bls, d, st). unat (d + 1))"
    by simp
qed

text \<open>
  The relocation of the aligned syndrome. The body of the loop shifts the word right by one
  and, when its lowest bit was set, adds \<open>find_power(2, code_length - 1)\<close>. The loop is
  \<open>for (uint i = 1; i <= shift_amount; i++)\<close>: its counter wraps around when
  \<open>shift_amount\<close> is \<open>UINT_MAX\<close>, and the loop does not end then, so the result is an
  option, \<open>None\<close> standing for a loop that never returns.
\<close>

definition shift_step :: "'a CyclicCode_scheme \<Rightarrow> uint \<Rightarrow> uint" where
  "shift_step c ls =
     (let bit_wrap = ((ls AND 1) = 1);
          shifted = drop_bit 1 ls
      in if bit_wrap then shifted + find_power 2 (code_length c - 1) else shifted)"

partial_function (option) shift_loop ::
  "'a CyclicCode_scheme \<Rightarrow> uint \<Rightarrow> uint \<Rightarrow> uint \<Rightarrow> uint option" where
  "shift_loop c shift_amount i ls =
     (if i \<le> shift_amount then shift_loop c shift_amount (i + 1) (shift_step c ls)
      else Some ls)"

declare shift_loop.simps [code]

definition shift_syndrome :: "'a CyclicCode_scheme \<Rightarrow> uint \<Rightarrow> uint \<Rightarrow> uint option" where
  "shift_syndrome c aligned shift_amount = shift_loop c shift_amount 1 aligned"

text \<open>What \<open>decode_word\<close> prints about the outcome.\<close>

datatype console = NoSyndromeFound | FailedToDecode | DecodedSuccessfully

text \<open>
  \<open>decode_word\<close> of \<open>cyclic_codes_2.h\<close>. The reordered shift list it builds first is used
  for printing only; building it reads \<open>cyclic_shifts.at(0)\<close>. \<open>burst_search\<close> is the
  state in which the search loops end. The result is \<open>None\<close> when the relocation loop does
  not return, \<open>Some (Inl e)\<close> when \<open>e\<close> is thrown, and otherwise the returned word with
  what was printed about it.
\<close>

definition burst_search :: "CyclicCode2 \<Rightarrow> uint \<Rightarrow> search_state" where
  "burst_search c received_word =
     (let syndromes = get_syndromes c received_word;
          syndrome_burst_lengths =
            map (\<lambda>s. get_burst_length s (of_nat (length (parity_check c)))) syndromes
      in outer_search syndromes syndrome_burst_lengths (max_burst_length c)
           \<lparr>found_syndrome = False, light_syndrome = 0, light_syndrome_pos = 0,
            which_syndrome = 0, scans = []\<rparr>)"

definition decode_word_2 ::
  "CyclicCode2 \<Rightarrow> uint \<Rightarrow> (error + (uint \<times> console)) option" where
  "decode_word_2 c received_word =
     (let cyclic_shifts = get_cyclic_shifts received_word (code_length c)
      in if cyclic_shifts = [] then Some (Inl OutOfRange)
         else
           (let st = burst_search c received_word
            in if \<not> found_syndrome st then Some (Inr (received_word, NoSyndromeFound))
               else
                 (let aligned = push_bit (align_shift c) (light_syndrome st);
                      shift_amount = code_length c - of_nat (light_syndrome_pos st)
                  in case shift_syndrome c aligned shift_amount of
                       None \<Rightarrow> None
                     | Some shifted_syndrome \<Rightarrow>
                         (let decoded_word = received_word XOR shifted_syndrome
                          in Some (Inr (decoded_word,
                                        if is_code_word c decoded_word
                                        then DecodedSuccessfully else FailedToDecode))))))"

section \<open>Specification-level notions\<close>

text \<open>The GF(2) sum of a list of words.\<close>

definition xor_all :: "uint list \<Rightarrow> uint" where
  "xor_all ws = foldr (XOR) ws 0"

text \<open>The generator rows a message selects under the reversed-row contract.\<close>

definition selected_rows :: "uint list \<Rightarrow> uint \<Rightarrow> uint list" where
  "selected_rows G m =
     map (\<lambda>i. G ! (length G - 1 - i)) (filter (\<lambda>i. bit m i) [0..<length G])"

text \<open>The Hamming weight of a word within its lowest \<open>n\<close> places.\<close>

definition weight_count :: "nat \<Rightarrow> uint \<Rightarrow> nat" where
  "weight_count n x = length (filter (\<lambda>i. bit x i) [0..<n])"

text \<open>
  Cyclic rotation within the lowest \<open>m\<close> places. \<open>rotate_left m w i\<close> moves the bit at
  place \<open>p\<close> to place \<open>(p + i) mod m\<close>: the bit of the result at place \<open>q\<close> is the bit of
  \<open>w\<close> at place \<open>(q - i) mod m\<close>. \<open>rotate_right m w i\<close> moves the bit at place \<open>p\<close> to place
  \<open>(p - i) mod m\<close>, the lowest bits wrapping around to the top.
\<close>

definition rotate_left :: "nat \<Rightarrow> uint \<Rightarrow> nat \<Rightarrow> uint" where
  "rotate_left m w i =
     horner_sum of_bool 2 (map (\<lambda>q. bit w ((q + m - i mod m) mod m)) [0..<m])"

definition rotate_right :: "nat \<Rightarrow> uint \<Rightarrow> nat \<Rightarrow> uint" where
  "rotate_right m w i =
     horner_sum of_bool 2 (map (\<lambda>q. bit w ((q + i) mod m)) [0..<m])"

text \<open>
  The GF(2) dot product of two words within their lowest \<open>n\<close> places: whether an odd
  number of places are set in both.
\<close>

definition parity_with :: "nat \<Rightarrow> uint \<Rightarrow> uint \<Rightarrow> bool" where
  "parity_with n h w = odd (weight_count n (w AND h))"

text \<open>
  The rows of a matrix are linearly independent over GF(2) when no non-empty selection of
  rows has the sum zero, each row taken within its lowest \<open>n\<close> places.
\<close>

definition independent_rows :: "nat \<Rightarrow> uint list \<Rightarrow> bool" where
  "independent_rows n H =
     (\<forall>rows\<in>set (subseqs H). rows \<noteq> [] \<longrightarrow> take_bit n (xor_all rows) \<noteq> 0)"

text \<open>The GF(2) sums of all selections of rows, used to count the codebook.\<close>

fun span_rows :: "nat \<Rightarrow> uint list \<Rightarrow> uint list" where
  "span_rows n [] = [0]"
| "span_rows n (h # H) = span_rows n H @ map (\<lambda>x. x XOR take_bit n h) (span_rows n H)"

text \<open>The words of \<open>n\<close> places that have dot product 0 with every row.\<close>

definition solutions :: "nat \<Rightarrow> uint list \<Rightarrow> uint set" where
  "solutions n H = {w. unat w < 2 ^ n \<and> (\<forall>h\<in>set H. \<not> parity_with n h w)}"


text \<open>
  A code is cyclic when every cyclic rotation of a code word by one place, and so by any
  number of places, is a code word.
\<close>

definition cyclic_code :: "'a CyclicCode_scheme \<Rightarrow> bool" where
  "cyclic_code c =
     (\<forall>w. is_code_word c w \<longrightarrow> is_code_word c (rotate_left (unat (code_length c)) w 1))"

section \<open>Basic facts\<close>

lemma unat_UINT_MAX: "unat UINT_MAX = 4294967295"
  by (simp add: UINT_MAX_def unsigned_minus_1_eq_mask mask_eq_exp_minus_1)

lemma test_bit_conv: "(drop_bit i (w :: uint) AND 1 = 1) = bit w i"
  by (simp add: bit_iff_and_drop_bit_eq_1)

lemma encode_fold_xor:
  "fold (\<lambda>pv (e :: uint). if bit (a XOR b) pv then e XOR f pv else e) is (x XOR y) =
   fold (\<lambda>pv e. if bit a pv then e XOR f pv else e) is x XOR
   fold (\<lambda>pv e. if bit b pv then e XOR f pv else e) is y"
proof (induction "is" arbitrary: x y)
  case Nil
  show ?case by simp
next
  case (Cons i "is")
  have e1: "(x XOR f i) XOR (y XOR f i) = x XOR y"
    by (rule bit_eqI) (auto simp: bit_xor_iff)
  have e2: "(x XOR f i) XOR y = (x XOR y) XOR f i"
    by (rule bit_eqI) (auto simp: bit_xor_iff)
  have e3: "x XOR (y XOR f i) = (x XOR y) XOR f i"
    by (rule bit_eqI) (auto simp: bit_xor_iff)
  show ?case
  proof (cases "bit a i")
    case True
    note a = this
    show ?thesis
    proof (cases "bit b i")
      case True
      with a Cons.IH [of "x XOR f i" "y XOR f i"] show ?thesis
        by (simp only: e1 fold_simps bit_xor_iff if_True if_False simp_thms comp_apply)
    next
      case False
      with a Cons.IH [of "x XOR f i" y] show ?thesis
        by (simp only: e2 fold_simps bit_xor_iff if_True if_False simp_thms comp_apply)
    qed
  next
    case False
    note a = this
    show ?thesis
    proof (cases "bit b i")
      case True
      with a Cons.IH [of x "y XOR f i"] show ?thesis
        by (simp only: e3 fold_simps bit_xor_iff if_True if_False simp_thms comp_apply)
    next
      case False
      with a Cons.IH [of x y] show ?thesis
        by (simp only: fold_simps bit_xor_iff if_True if_False simp_thms comp_apply)
    qed
  qed
qed

lemma encode_fold_zero:
  "fold (\<lambda>pv (e :: uint). if bit (0 :: uint) pv then e XOR f pv else e) is x = x"
  by (induction "is" arbitrary: x) simp_all

lemma encode_fold_selected:
  "fold (\<lambda>pv (e :: uint). if bit m pv then e XOR f pv else e) is x =
   x XOR foldr (XOR) (map f (filter (\<lambda>i. bit m i) is)) 0"
proof (induction "is" arbitrary: x)
  case Nil
  show ?case by simp
next
  case (Cons i "is")
  show ?case
    by (simp add: Cons.IH xor.assoc)
qed

lemma encode_word_alt:
  "encode_word c w =
   fold (\<lambda>pv e. if bit w pv then e XOR generator c ! (length (generator c) - 1 - pv) else e)
     [0..<length (generator c)] 0"
  by (simp only: encode_word_def test_bit_conv)

section \<open>The encoder\<close>

text \<open>
  Claim C10. \<open>encode_word\<close> is linear over GF(2): the encoding of the XOR of two messages
  is the XOR of their encodings, and the zero message is encoded as the zero word, whatever
  the generator matrix is.
\<close>

theorem encode_word_linear:
  "encode_word c (a XOR b) = encode_word c a XOR encode_word c b \<and> encode_word c 0 = 0"
proof
  have "(0 :: uint) XOR 0 = 0" by simp
  then show "encode_word c (a XOR b) = encode_word c a XOR encode_word c b"
    using encode_fold_xor [of a b "\<lambda>pv. generator c ! (length (generator c) - 1 - pv)"
        "[0..<length (generator c)]" 0 0]
    by (simp only: encode_word_alt)
  show "encode_word c 0 = 0"
    by (simp only: encode_word_alt encode_fold_zero)
qed

text \<open>
  Claim C7. The encoded word is the XOR of exactly the generator rows at index
  \<open>k - 1 - i\<close> for the set bits \<open>i\<close> of the message, \<open>k\<close> being the number of rows; so
  the message whose only set bit is the least significant one is encoded as the last row.
\<close>

theorem encode_word_reversed_rows:
  "encode_word c m = xor_all (selected_rows (generator c) m) \<and>
   encode_word c 1 = (if generator c = [] then 0 else last (generator c))"
proof
  have sel: "encode_word c w = xor_all (selected_rows (generator c) w)" for w
    unfolding encode_word_alt xor_all_def selected_rows_def
    by (subst encode_fold_selected) simp
  show "encode_word c m = xor_all (selected_rows (generator c) m)"
    by (rule sel)
  show "encode_word c 1 = (if generator c = [] then 0 else last (generator c))"
  proof (cases "generator c")
    case Nil
    then show ?thesis by (simp add: encode_word_def)
  next
    case (Cons g gs)
    have "[0..<Suc (length gs)] = 0 # [1..<Suc (length gs)]"
      by (simp add: upt_conv_Cons del: upt_Suc)
    moreover have "filter (\<lambda>i. bit (1 :: uint) i) [1..<Suc (length gs)] = []"
      by (simp add: filter_empty_conv bit_1_iff del: upt_Suc)
    ultimately have f: "filter (\<lambda>i. bit (1 :: uint) i) [0..<Suc (length gs)] = [0]"
      by (simp del: upt_Suc)
    have "selected_rows (generator c) 1 = [generator c ! (length (generator c) - 1)]"
      using Cons f by (simp add: selected_rows_def del: upt_Suc)
    then have "encode_word c 1 = generator c ! (length (generator c) - 1)"
      by (simp add: sel xor_all_def)
    then show ?thesis
      using Cons by (simp add: last_conv_nth)
  qed
qed

section \<open>Loops of the decoders\<close>

declare inner_scan.simps [simp del] outer_search.simps [simp del] scan_weight.simps [simp del]

lemma inner_scan_found:
  "found_syndrome st \<Longrightarrow> inner_scan syns bls d st = st"
  by (subst inner_scan.simps) simp

lemma inner_scan_none:
  "\<not> found_syndrome st \<Longrightarrow>
   (\<And>j. which_syndrome st \<le> j \<Longrightarrow> j < length syns \<Longrightarrow> bls ! j \<noteq> d) \<Longrightarrow>
   inner_scan syns bls d st = st\<lparr>which_syndrome := max (which_syndrome st) (length syns)\<rparr>"
proof (induction syns bls d st rule: inner_scan.induct)
  case (1 syns bls d st)
  show ?case
  proof (cases "which_syndrome st < length syns")
    case True
    have ne: "bls ! which_syndrome st \<noteq> d"
      using "1.prems"(2) [of "which_syndrome st"] True by simp
    let ?st' = "st\<lparr>which_syndrome := which_syndrome st + 1\<rparr>"
    have "inner_scan syns bls d ?st' =
          ?st'\<lparr>which_syndrome := max (which_syndrome ?st') (length syns)\<rparr>"
      using "1.IH" "1.prems" True ne by simp
    then show ?thesis
      using True ne "1.prems"(1)
      by (subst inner_scan.simps) (simp add: max_def)
  next
    case False
    then show ?thesis
      by (subst inner_scan.simps) (simp add: max_def)
  qed
qed

lemma inner_scan_first:
  "\<not> found_syndrome st \<Longrightarrow> which_syndrome st \<le> i \<Longrightarrow> i < length syns \<Longrightarrow>
   bls ! i = d \<Longrightarrow> (\<And>j. which_syndrome st \<le> j \<Longrightarrow> j < i \<Longrightarrow> bls ! j \<noteq> d) \<Longrightarrow>
   inner_scan syns bls d st =
   st\<lparr>found_syndrome := True, light_syndrome := syns ! i, light_syndrome_pos := i,
      which_syndrome := i + 1\<rparr>"
proof (induction syns bls d st rule: inner_scan.induct)
  case (1 syns bls d st)
  have lt: "which_syndrome st < length syns"
    using "1.prems" by simp
  show ?case
  proof (cases "which_syndrome st = i")
    case True
    then show ?thesis
      using "1.prems" lt
      by (subst inner_scan.simps) (simp add: inner_scan_found)
  next
    case False
    then have less: "which_syndrome st < i"
      using "1.prems"(2) by simp
    have ne: "bls ! which_syndrome st \<noteq> d"
      using "1.prems"(5) [of "which_syndrome st"] less by simp
    let ?st' = "st\<lparr>which_syndrome := which_syndrome st + 1\<rparr>"
    have "inner_scan syns bls d ?st' =
       ?st'\<lparr>found_syndrome := True, light_syndrome := syns ! i, light_syndrome_pos := i,
      which_syndrome := i + 1\<rparr>"
      using "1.IH" "1.prems" lt ne less by simp
    then show ?thesis
      using lt ne "1.prems"(1)
      by (subst inner_scan.simps) simp
  qed
qed

lemma inner_scan_which_le:
  "which_syndrome st \<le> length syns \<Longrightarrow>
   which_syndrome (inner_scan syns bls d st) \<le> length syns"
proof (induction syns bls d st rule: inner_scan.induct)
  case (1 syns bls d st)
  show ?case
  proof (cases "\<not> found_syndrome st \<and> which_syndrome st < length syns")
    case True
    then show ?thesis
      using "1.IH" by (subst inner_scan.simps) simp
  next
    case False
    then show ?thesis
      using "1.prems" by (subst inner_scan.simps) auto
  qed
qed

lemma inner_scan_scans:
  "scans (inner_scan syns bls d st) = scans st"
proof (induction syns bls d st rule: inner_scan.induct)
  case (1 syns bls d st)
  show ?case
  proof (cases "\<not> found_syndrome st \<and> which_syndrome st < length syns")
    case True
    then show ?thesis
      using "1.IH" by (subst inner_scan.simps) simp
  next
    case False
    then show ?thesis
      by (subst inner_scan.simps) auto
  qed
qed

lemma outer_search_scans:
  "which_syndrome st \<le> length syns \<Longrightarrow>
   \<exists>ks. scans (outer_search syns bls d st) = scans st @ ks \<and> length ks = unat (d + 1) \<and>
        (\<forall>k\<in>set ks. k \<le> length syns)"
proof (induction syns bls d st rule: outer_search.induct)
  case (1 syns bls d st)
  show ?case
  proof (cases "d = UINT_MAX")
    case True
    then show ?thesis
      by (subst outer_search.simps) (simp add: UINT_MAX_def)
  next
    case False
    let ?st' = "inner_scan syns bls d st"
    let ?st'' = "?st'\<lparr>which_syndrome := 0, scans := scans ?st' @ [which_syndrome ?st']\<rparr>"
    from False have "d + 1 \<noteq> 0"
      unfolding UINT_MAX_def by (metis add.commute add_eq_0_iff)
    then have suc: "unat (d + 1) = Suc (unat d)"
      using unatSuc [of d] by (simp add: add.commute)
    obtain ks where ks: "scans (outer_search syns bls (d - 1) ?st'') = scans ?st'' @ ks"
      "length ks = unat (d - 1 + 1)" "\<forall>k\<in>set ks. k \<le> length syns"
      using "1.IH" [OF False refl] by auto
    have le: "which_syndrome ?st' \<le> length syns"
      using "1.prems" by (rule inner_scan_which_le)
    have "scans (outer_search syns bls d st) = scans st @ (which_syndrome ?st' # ks)"
      using False ks(1) by (subst outer_search.simps) (simp add: Let_def inner_scan_scans)
    moreover have "length (which_syndrome ?st' # ks) = unat (d + 1)"
      using ks(2) suc by simp
    moreover have "\<forall>k\<in>set (which_syndrome ?st' # ks). k \<le> length syns"
      using ks(3) le by simp
    ultimately show ?thesis by blast
  qed
qed


lemma cyclic_shifts_fold_length:
  "length (snd (fold (\<lambda>i (bit_place_values, cyclic_shifts).
                    (map g bit_place_values, cyclic_shifts @ [h (map g bit_place_values)]))
                  xs (b, cs))) =
   length cs + length xs"
  by (induction xs arbitrary: b cs) simp_all

lemma length_get_cyclic_shifts:
  "length (get_cyclic_shifts w n) = Suc (unat n - 1)"
  unfolding get_cyclic_shifts_def Let_def
  by (subst cyclic_shifts_fold_length) simp

lemma get_cyclic_shifts_nonempty: "get_cyclic_shifts w n \<noteq> []"
  using length_get_cyclic_shifts [of w n] by auto

lemma length_get_syndromes:
  "length (get_syndromes c w) = Suc (unat (code_length c) - 1)"
proof -
  have "length (get_syndromes c w) =
        Suc (length (get_cyclic_shifts w (code_length c)) - 1)"
    by (simp add: get_syndromes_def Let_def)
  then show ?thesis
    by (simp add: length_get_cyclic_shifts)
qed

lemma length_syndromes_1:
  "length (syndromes_1 c w) = Suc (unat (code_length c) - 1)"
  by (simp add: syndromes_1_def Let_def length_get_cyclic_shifts)

lemma outer_search_found_keep:
  "found_syndrome st \<Longrightarrow>
   found_syndrome (outer_search syns bls d st) \<and>
   light_syndrome (outer_search syns bls d st) = light_syndrome st \<and>
   light_syndrome_pos (outer_search syns bls d st) = light_syndrome_pos st"
proof (induction syns bls d st rule: outer_search.induct)
  case (1 syns bls d st)
  show ?case
  proof (cases "d = UINT_MAX")
    case True
    then show ?thesis
      using "1.prems" by (subst (1 2 3) outer_search.simps) simp
  next
    case False
    have keep: "inner_scan syns bls d st = st"
      using "1.prems" by (rule inner_scan_found)
    show ?thesis
      using False "1.IH" [OF False refl] "1.prems" keep
      by (subst (1 2 3) outer_search.simps) (simp add: Let_def)
  qed
qed

lemma outer_search_none:
  "\<not> found_syndrome st \<Longrightarrow> which_syndrome st = 0 \<Longrightarrow>
   (\<And>j. j < length syns \<Longrightarrow> \<not> bls ! j \<le> d) \<Longrightarrow>
   \<not> found_syndrome (outer_search syns bls d st)"
proof (induction syns bls d st rule: outer_search.induct)
  case (1 syns bls d st)
  show ?case
  proof (cases "d = UINT_MAX")
    case True
    then show ?thesis
      using "1.prems" by (subst outer_search.simps) simp
  next
    case False
    have ne: "\<And>j. j < length syns \<Longrightarrow> bls ! j \<noteq> d"
      using "1.prems"(3) by auto
    have scan: "inner_scan syns bls d st =
        st\<lparr>which_syndrome := max (which_syndrome st) (length syns)\<rparr>"
      using "1.prems"(1) ne by (intro inner_scan_none) auto
    let ?st'' = "st\<lparr>which_syndrome := 0, scans := scans st @ [length syns]\<rparr>"
    have unfold: "outer_search syns bls d st = outer_search syns bls (d - 1) ?st''"
      using False scan "1.prems"(2) by (subst outer_search.simps) (simp add: Let_def)
    show ?thesis
    proof (cases "d = 0")
      case True
      have "outer_search syns bls (d - 1) ?st'' = ?st''"
        using True by (subst outer_search.simps) (simp add: UINT_MAX_def)
      then show ?thesis
        using unfold "1.prems"(1) by simp
    next
      case d0: False
      have below: "\<not> bls ! j \<le> d - 1" if "j < length syns" for j
      proof
        assume "bls ! j \<le> d - 1"
        moreover have "d - 1 \<le> d"
          using d0 by (simp add: word_le_nat_alt unat_minus_one)
        ultimately have "bls ! j \<le> d" by simp
        then show False using "1.prems"(3) [OF that] by simp
      qed
      have "\<not> found_syndrome (outer_search syns bls (d - 1)
          ((inner_scan syns bls d st)\<lparr>which_syndrome := 0,
             scans := scans (inner_scan syns bls d st) @
               [which_syndrome (inner_scan syns bls d st)]\<rparr>))"
        using "1.prems"(1) below by (intro "1.IH" [OF False refl]) (simp_all add: scan)
      then show ?thesis
        using unfold scan "1.prems"(2) by simp
    qed
  qed
qed


section \<open>The burst search of \<open>cyclic_codes_2.h\<close>\<close>

lemma code_length_new_CyclicCode2 [simp]:
  "code_length (new_CyclicCode2 G H n) = n"
  by (simp add: new_CyclicCode2_def Let_def)

lemma max_burst_length_new_CyclicCode2 [simp]:
  "max_burst_length (new_CyclicCode2 G H n) = 3"
  by (simp add: new_CyclicCode2_def Let_def)

lemma parity_check_new_CyclicCode2 [simp]:
  "parity_check (new_CyclicCode2 G H n) = H"
  by (simp add: new_CyclicCode2_def Let_def)

lemma generator_new_CyclicCode2 [simp]:
  "generator (new_CyclicCode2 G H n) = G"
  by (simp add: new_CyclicCode2_def Let_def)

text \<open>
  Claim C9. The burst search ends for every received word and every code of length at least
  one. \<open>outer_search\<close> and \<open>inner_scan\<close> are total functions, their termination proved
  above from the wrap-around of the counter and from the growth of the index; for a code
  built by the constructor the outer loop makes exactly \<open>max_burst_length + 1 = 4\<close> passes,
  and the inner loop runs at most \<open>code_length\<close> times in each.
\<close>

theorem burst_search_terminates:
  assumes "n \<noteq> 0"
  shows "length (scans (burst_search (new_CyclicCode2 G H n) w)) =
           unat (max_burst_length (new_CyclicCode2 G H n)) + 1 \<and>
         length (scans (burst_search (new_CyclicCode2 G H n) w)) = 4 \<and>
         (\<forall>k\<in>set (scans (burst_search (new_CyclicCode2 G H n) w)). k \<le> unat n)"
proof -
  let ?c = "new_CyclicCode2 G H n"
  let ?syns = "get_syndromes ?c w"
  let ?bls = "map (\<lambda>s. get_burst_length s (of_nat (length (parity_check ?c)))) ?syns"
  let ?st0 = "\<lparr>found_syndrome = False, light_syndrome = 0, light_syndrome_pos = 0,
            which_syndrome = 0, scans = []\<rparr>"
  have "0 < unat n"
    using assms by (simp add: unat_gt_0)
  then have len: "length ?syns = unat n"
    by (simp add: length_get_syndromes)
  obtain ks where ks: "scans (outer_search ?syns ?bls (max_burst_length ?c) ?st0) = scans ?st0 @ ks"
    "length ks = unat (max_burst_length ?c + 1)" "\<forall>k\<in>set ks. k \<le> length ?syns"
    using outer_search_scans [of ?st0 ?syns ?bls "max_burst_length ?c"] by auto
  have eq: "scans (burst_search ?c w) = ks"
    using ks(1) by (simp add: burst_search_def Let_def)
  show ?thesis
    using ks(2,3) len unfolding eq by simp
qed

theorem burst_search_terminates_witness:
  "(3 :: uint) \<noteq> 0 \<and> length (scans (burst_search (new_CyclicCode2 [4, 2] [1] 3) 2)) = 4"
  using burst_search_terminates [of 3 "[4, 2]" "[1]" 2] by simp

text \<open>
  Claim C5. When no syndrome of the received word has a burst length in
  \<open>[0, max_burst_length]\<close>, \<open>decode_word\<close> of \<open>cyclic_codes_2.h\<close> returns the received word
  unchanged, prints that no syndrome was found, and throws nothing.
\<close>

theorem burst_decode_failure:
  assumes "\<forall>s\<in>set (get_syndromes c w).
             \<not> get_burst_length s (of_nat (length (parity_check c))) \<le> max_burst_length c"
  shows "decode_word_2 c w = Some (Inr (w, NoSyndromeFound))"
proof -
  let ?syns = "get_syndromes c w"
  let ?bls = "map (\<lambda>s. get_burst_length s (of_nat (length (parity_check c)))) ?syns"
  let ?st0 = "\<lparr>found_syndrome = False, light_syndrome = 0, light_syndrome_pos = 0,
            which_syndrome = 0, scans = []\<rparr>"
  have "\<not> found_syndrome (outer_search ?syns ?bls (max_burst_length c) ?st0)"
    using assms by (intro outer_search_none) simp_all
  then have "\<not> found_syndrome (burst_search c w)"
    by (simp add: burst_search_def Let_def)
  then show ?thesis
    by (simp add: decode_word_2_def Let_def get_cyclic_shifts_nonempty)
qed

lemma failure_example_code:
  "new_CyclicCode2 [] [8, 4, 2, 1] 4 =
   \<lparr>generator = [], parity_check = [8, 4, 2, 1], code_words = [0], code_length = 4,
    min_distance = UINT_MAX, max_burst_length = 3\<rparr>"
  by code_simp

lemma failure_example_syndromes:
  "get_syndromes \<lparr>generator = [], parity_check = [8, 4, 2, 1], code_words = [0],
     code_length = 4, min_distance = UINT_MAX, max_burst_length = 3\<rparr> 15 = [15, 15, 15, 15]"
  by code_simp

lemma failure_example_burst: "get_burst_length 15 4 = 4"
  by code_simp

theorem burst_decode_failure_witness:
  "get_syndromes (new_CyclicCode2 [] [8, 4, 2, 1] 4) 15 = [15, 15, 15, 15] \<and>
   get_burst_length 15 4 = 4 \<and>
   decode_word_2 (new_CyclicCode2 [] [8, 4, 2, 1] 4) 15 = Some (Inr (15, NoSyndromeFound))"
proof -
  let ?c = "new_CyclicCode2 [] [8, 4, 2, 1] 4"
  have s: "get_syndromes ?c 15 = [15, 15, 15, 15]"
    by (simp only: failure_example_code failure_example_syndromes)
  have "\<forall>s\<in>set (get_syndromes ?c 15).
          \<not> get_burst_length s (of_nat (length (parity_check ?c))) \<le> max_burst_length ?c"
    unfolding s by (simp add: failure_example_burst)
  from burst_decode_failure [OF this] s failure_example_burst show ?thesis
    by simp
qed

section \<open>The nearest-neighbour decoder\<close>

lemma fold_index_conv:
  "fold (\<lambda>i. g (xs ! i)) [0..<length xs] a = fold g xs a"
proof (induction xs arbitrary: a rule: rev_induct)
  case Nil
  show ?case by simp
next
  case (snoc x xs)
  have "fold (\<lambda>i. g ((xs @ [x]) ! i)) [0..<length xs] a = fold (\<lambda>i. g (xs ! i)) [0..<length xs] a"
    by (rule fold_cong) (simp_all add: nth_append)
  then show ?case
    using snoc.IH by simp
qed

lemma hamming_distance_count:
  "fold (\<lambda>pv (hd :: uint). hd + (drop_bit pv x AND 1)) is a =
   a + of_nat (length (filter (\<lambda>i. bit x i) is))"
proof (induction "is" arbitrary: a)
  case Nil
  show ?case by simp
next
  case (Cons i "is")
  have "drop_bit i x AND 1 = (if bit x i then 1 else 0)"
    by (simp add: and_one_eq bit_iff_odd_drop_bit mod_2_eq_odd)
  then show ?case
    by (simp add: Cons.IH)
qed

lemma weight_count_le: "weight_count n x \<le> 32"
proof -
  have "filter (\<lambda>i. bit x i) [0..<n] = filter (\<lambda>i. bit x i) [0..<min n 32]"
  proof (cases "n \<le> 32")
    case True
    then show ?thesis by (simp add: min_def)
  next
    case False
    then have "[0..<n] = [0..<32] @ [32..<n]"
      by (metis le_add_diff_inverse nat_le_linear upt_add_eq_append zero_le)
    moreover have "filter (\<lambda>i. bit x i) [32..<n] = []"
      by (auto simp: filter_empty_conv dest: bit_imp_le_length)
    ultimately show ?thesis
      using False by (simp add: min_def)
  qed
  then have "weight_count n x \<le> length [0..<min n 32]"
    unfolding weight_count_def by (metis length_filter_le)
  then show ?thesis by simp
qed

lemma hamming_distance_eq:
  "hamming_distance c a b = of_nat (weight_count (unat (code_length c)) (a XOR b))"
  by (simp add: hamming_distance_def Let_def hamming_distance_count weight_count_def)

lemma unat_hamming_distance:
  "unat (hamming_distance c a b) = weight_count (unat (code_length c)) (a XOR b)"
proof -
  have "weight_count (unat (code_length c)) (a XOR b) < 2 ^ 32"
    using weight_count_le [of "unat (code_length c)" "a XOR b"] by simp
  then show ?thesis
    by (simp add: hamming_distance_eq unat_of_nat)
qed

lemma hamming_distance_less_max: "hamming_distance c a b < UINT_MAX"
proof -
  have "unat (hamming_distance c a b) \<le> 32"
    by (simp add: unat_hamming_distance weight_count_le)
  moreover have "unat UINT_MAX = 4294967295"
    by (simp add: UINT_MAX_def unsigned_minus_1_eq_mask mask_eq_exp_minus_1)
  ultimately show ?thesis
    by (simp add: word_less_nat_alt)
qed

lemma hamming_distance_coset:
  "hamming_distance c 0 (w XOR x) = hamming_distance c w x"
  by (simp add: hamming_distance_def)

lemma first_least_fold_none:
  fixes f :: "'a \<Rightarrow> uint"
  shows "\<forall>x\<in>set xs. \<not> f x < lh \<Longrightarrow>
     fold (\<lambda>x (least_hw, error_word). if f x < least_hw then (f x, x) else (least_hw, error_word))
       xs (lh, ew) = (lh, ew)"
  by (induction xs) simp_all

lemma first_least_fold_some:
  fixes f :: "'a \<Rightarrow> uint"
  shows "\<exists>x\<in>set xs. f x < lh \<Longrightarrow>
     \<exists>i<length xs.
       fold (\<lambda>x (least_hw, error_word). if f x < least_hw then (f x, x) else (least_hw, error_word))
         xs (lh, ew) = (f (xs ! i), xs ! i) \<and>
       f (xs ! i) < lh \<and> (\<forall>j<length xs. f (xs ! i) \<le> f (xs ! j)) \<and>
       (\<forall>j<i. f (xs ! i) < f (xs ! j))"
proof (induction xs arbitrary: lh ew)
  case Nil
  then show ?case by simp
next
  case (Cons x xs)
  let ?step = "\<lambda>x (least_hw, error_word). if f x < least_hw then (f x, x) else (least_hw, error_word)"
  have shift: "\<exists>i<length (x # xs).
       fold ?step (x # xs) (lh, ew) = (f ((x # xs) ! i), (x # xs) ! i) \<and>
       f ((x # xs) ! i) < lh \<and> (\<forall>j<length (x # xs). f ((x # xs) ! i) \<le> f ((x # xs) ! j)) \<and>
       (\<forall>j<i. f ((x # xs) ! i) < f ((x # xs) ! j))"
    if i: "i < length xs" "fold ?step (x # xs) (lh, ew) = (f (xs ! i), xs ! i)"
      "f (xs ! i) < lh" "\<forall>j<length xs. f (xs ! i) \<le> f (xs ! j)"
      "\<forall>j<i. f (xs ! i) < f (xs ! j)" "f (xs ! i) < f x" for i
  proof (intro exI [of _ "Suc i"] conjI allI impI)
    show "Suc i < length (x # xs)" using i(1) by simp
    show "fold ?step (x # xs) (lh, ew) = (f ((x # xs) ! Suc i), (x # xs) ! Suc i)"
      using i(2) by simp
    show "f ((x # xs) ! Suc i) < lh" using i(3) by simp
    show "f ((x # xs) ! Suc i) \<le> f ((x # xs) ! j)" if "j < length (x # xs)" for j
    proof (cases j)
      case 0
      then show ?thesis using i(6) by simp
    next
      case (Suc k)
      then show ?thesis using i(4) that by simp
    qed
    show "f ((x # xs) ! Suc i) < f ((x # xs) ! j)" if "j < Suc i" for j
    proof (cases j)
      case 0
      then show ?thesis using i(6) by simp
    next
      case (Suc k)
      then show ?thesis using i(5) that by simp
    qed
  qed
  show ?case
  proof (cases "f x < lh")
    case True
    note fx = this
    show ?thesis
    proof (cases "\<forall>y\<in>set xs. \<not> f y < f x")
      case True
      then have r: "fold ?step xs (f x, x) = (f x, x)"
        by (rule first_least_fold_none)
      show ?thesis
      proof (intro exI [of _ 0] conjI allI impI)
        show "0 < length (x # xs)" by simp
        show "fold ?step (x # xs) (lh, ew) = (f ((x # xs) ! 0), (x # xs) ! 0)"
          using fx r by simp
        show "f ((x # xs) ! 0) < lh" using fx by simp
        show "f ((x # xs) ! 0) \<le> f ((x # xs) ! j)" if "j < length (x # xs)" for j
        proof (cases j)
          case 0
          then show ?thesis by simp
        next
          case (Suc k)
          then have "xs ! k \<in> set xs" using that by simp
          then show ?thesis using True Suc by (simp add: not_less)
        qed
        show "f ((x # xs) ! 0) < f ((x # xs) ! j)" if "j < 0" for j
          using that by simp
      qed
    next
      case False
      then have "\<exists>y\<in>set xs. f y < f x" by simp
      from Cons.IH [OF this, of x]
      obtain i where i: "i < length xs" "fold ?step xs (f x, x) = (f (xs ! i), xs ! i)"
        "f (xs ! i) < f x" "\<forall>j<length xs. f (xs ! i) \<le> f (xs ! j)" "\<forall>j<i. f (xs ! i) < f (xs ! j)"
        by blast
      have "fold ?step (x # xs) (lh, ew) = (f (xs ! i), xs ! i)"
        using fx i(2) by simp
      moreover have "f (xs ! i) < lh"
        using i(3) fx by simp
      ultimately show ?thesis
        using i by (intro shift [of i]) simp_all
    qed
  next
    case False
    note fx = this
    then have "\<exists>y\<in>set xs. f y < lh"
      using Cons.prems by auto
    from Cons.IH [OF this, of ew]
    obtain i where i: "i < length xs" "fold ?step xs (lh, ew) = (f (xs ! i), xs ! i)"
      "f (xs ! i) < lh" "\<forall>j<length xs. f (xs ! i) \<le> f (xs ! j)" "\<forall>j<i. f (xs ! i) < f (xs ! j)"
      by blast
    have "fold ?step (x # xs) (lh, ew) = (f (xs ! i), xs ! i)"
      using fx i(2) by simp
    moreover have "f (xs ! i) < f x"
      using i(3) fx by simp
    ultimately show ?thesis
      using i by (intro shift [of i]) simp_all
  qed
qed


text \<open>
  On a non-empty codebook the nearest-neighbour decoder returns a code word: one at the
  least Hamming distance from the received word among all code words, and the first such
  code word of the codebook, every earlier one being strictly farther.
\<close>

lemma nearest_neighbor_first_least:
  assumes "code_words c \<noteq> []"
  shows "\<exists>i<length (code_words c).
           nearest_neighbor c w = Inr (code_words c ! i) \<and>
           (\<forall>j<length (code_words c).
              hamming_distance c w (code_words c ! i) \<le> hamming_distance c w (code_words c ! j)) \<and>
           (\<forall>j<i. hamming_distance c w (code_words c ! i) < hamming_distance c w (code_words c ! j))"
proof -
  let ?coset = "map (\<lambda>x. w XOR x) (code_words c)"
  let ?f = "\<lambda>x. hamming_distance c 0 x"
  let ?step = "\<lambda>x (least_hw, error_word). if ?f x < least_hw then (?f x, x) else (least_hw, error_word)"
  have ne: "?coset \<noteq> []"
    using assms by simp
  then obtain x where "x \<in> set ?coset"
    by (cases ?coset) auto
  then have "\<exists>x\<in>set ?coset. ?f x < UINT_MAX"
    using hamming_distance_less_max by blast
  from first_least_fold_some [OF this, of "?coset ! 0"]
  obtain i where i: "i < length ?coset"
    "fold ?step ?coset (UINT_MAX, ?coset ! 0) = (?f (?coset ! i), ?coset ! i)"
    "\<forall>j<length ?coset. ?f (?coset ! i) \<le> ?f (?coset ! j)"
    "\<forall>j<i. ?f (?coset ! i) < ?f (?coset ! j)"
    by blast
  have idx: "fold (\<lambda>i. ?step (?coset ! i)) [0..<length ?coset] (UINT_MAX, ?coset ! 0) =
          fold ?step ?coset (UINT_MAX, ?coset ! 0)"
    by (rule fold_index_conv)
  have "nearest_neighbor c w = Inr (w XOR ?coset ! i)"
    using ne idx i(2) by (simp add: nearest_neighbor_def Let_def)
  moreover have "w XOR ?coset ! i = code_words c ! i"
    using i(1) by (simp flip: xor.assoc)
  ultimately have res: "nearest_neighbor c w = Inr (code_words c ! i)"
    by simp
  have least: "hamming_distance c w (code_words c ! i) \<le> hamming_distance c w (code_words c ! j)"
    if "j < length (code_words c)" for j
    using i(1,3) that by (simp add: hamming_distance_coset)
  have first: "hamming_distance c w (code_words c ! i) < hamming_distance c w (code_words c ! j)"
    if "j < i" for j
    using i(1,4) that by (simp add: hamming_distance_coset)
  show ?thesis
    using i(1) res least first by auto
qed

lemma nn_example_code:
  "new_CyclicCode [7] [3, 5] 3 =
   \<lparr>generator = [7], parity_check = [3, 5], code_words = [0, 7], code_length = 3,
    min_distance = 3\<rparr>"
  by code_simp

lemma nn_example_nearest:
  "nearest_neighbor \<lparr>generator = [7], parity_check = [3, 5], code_words = [0, 7],
     code_length = 3, min_distance = 3\<rparr> 3 = Inr 7"
  by code_simp

text \<open>
  The repetition code of length 3: the received word \<open>011\<close> is at distance 2 from \<open>000\<close>
  and at distance 1 from \<open>111\<close>, which is returned.
\<close>

lemma nearest_neighbor_example:
  "nearest_neighbor (new_CyclicCode [7] [3, 5] 3) 3 = Inr 7"
  by (simp add: nn_example_code nn_example_nearest)

section \<open>The codebook\<close>

lemma find_power_eq: "find_power b e = b ^ unat e"
proof -
  have "fold (\<lambda>i result. result * b) xs a = a * b ^ length xs" for xs :: "nat list" and a :: uint
    by (induction xs arbitrary: a) (simp_all add: mult.assoc)
  then have "fold (\<lambda>i result. result * b) [0..<unat e] 1 = b ^ unat e"
    by simp
  then show ?thesis
    by (cases "e = 0") (simp_all add: find_power_def)
qed

lemma all_zero_fold:
  "fold (\<lambda>x is_word. if x \<noteq> (0 :: uint) then False else is_word) xs b =
   (b \<and> (\<forall>x\<in>set xs. x = 0))"
  by (induction xs arbitrary: b) auto

lemma is_code_word_iff:
  "is_code_word c w = (\<forall>col<length (parity_check c). dot_product c w col = 0)"
proof -
  let ?vp = "map (dot_product c w) [0..<length (parity_check c)]"
  have "is_code_word c w =
        fold (\<lambda>x is_word. if x \<noteq> (0 :: uint) then False else is_word) ?vp True"
    unfolding is_code_word_def Let_def
    by (rule fold_index_conv [of "\<lambda>x is_word. if x \<noteq> (0 :: uint) then False else is_word"])
  then have "is_code_word c w = (\<forall>x\<in>set ?vp. x = 0)"
    by (simp only: all_zero_fold simp_thms)
  then show ?thesis
    by auto
qed

lemma dot_term_xor:
  "(drop_bit row (a XOR b) AND 1) AND (h :: uint) =
   ((drop_bit row a AND 1) AND h) XOR ((drop_bit row b AND 1) AND h)"
  by (rule bit_eqI) (auto simp: bit_simps)

lemma dot_fold_xor:
  "fold (\<lambda>row (dp :: uint). dp XOR ((drop_bit row (a XOR b) AND 1) AND g row)) rows (x XOR y) =
   fold (\<lambda>row dp. dp XOR ((drop_bit row a AND 1) AND g row)) rows x XOR
   fold (\<lambda>row dp. dp XOR ((drop_bit row b AND 1) AND g row)) rows y"
proof (induction rows arbitrary: x y)
  case Nil
  show ?case by simp
next
  case (Cons r rows)
  have "(x XOR y) XOR ((drop_bit r (a XOR b) AND 1) AND g r) =
        (x XOR ((drop_bit r a AND 1) AND g r)) XOR (y XOR ((drop_bit r b AND 1) AND g r))"
    unfolding dot_term_xor by (rule bit_eqI) (auto simp: bit_xor_iff)
  then show ?case
    using Cons.IH [of "x XOR ((drop_bit r a AND 1) AND g r)" "y XOR ((drop_bit r b AND 1) AND g r)"]
    by simp
qed

lemma dot_product_xor:
  "dot_product c (a XOR b) col = dot_product c a col XOR dot_product c b col"
  using dot_fold_xor [of a b "\<lambda>row. drop_bit row (parity_check c ! col) AND 1" _ 0 0]
  by (simp add: dot_product_def Let_def)

lemma dot_product_zero: "dot_product c 0 col = 0"
proof -
  have "fold (\<lambda>row (dp :: uint). dp XOR ((drop_bit row 0 AND 1) AND g row)) rows 0 = 0"
    for g and rows :: "nat list"
    by (induction rows) simp_all
  then show ?thesis
    by (simp add: dot_product_def Let_def)
qed

lemma dot_term:
  "(drop_bit row (w :: uint) AND 1) AND (drop_bit row (h :: uint) AND 1) =
   of_bool (bit w row \<and> bit h row)"
  by (rule bit_eqI) (auto simp: bit_simps bit_of_bool_iff)

lemma dot_fold:
  "fold (\<lambda>row (dp :: uint). dp XOR of_bool (P row)) rows (of_bool b) =
   of_bool (b \<noteq> odd (length (filter P rows)))"
proof (induction rows arbitrary: b)
  case Nil
  show ?case by simp
next
  case (Cons row rows)
  have "(of_bool b :: uint) XOR of_bool (P row) = of_bool (b \<noteq> P row)"
    by (cases b; cases "P row") simp_all
  then show ?case
    using Cons.IH [of "b \<noteq> P row"] by auto
qed

lemma dot_product_parity:
  "dot_product c w col =
   of_bool (odd (length (filter (\<lambda>row. bit w row \<and> bit (parity_check c ! col) row)
                           [0..<unat (code_length c)])))"
  using dot_fold [of "\<lambda>row. bit w row \<and> bit (parity_check c ! col) row" _ False]
  by (simp add: dot_product_def Let_def dot_term)

lemma is_code_word_zero: "is_code_word c 0"
  by (simp add: is_code_word_iff dot_product_zero)

lemma is_code_word_xor:
  "is_code_word c a \<Longrightarrow> is_code_word c b \<Longrightarrow> is_code_word c (a XOR b)"
  by (simp add: is_code_word_iff dot_product_xor)

lemma unat_xor_less:
  fixes a b :: uint
  assumes "unat a < 2 ^ n" "unat b < 2 ^ n"
  shows "unat (a XOR b) < 2 ^ n"
proof -
  have "take_bit n (unat a) = unat a" "take_bit n (unat b) = unat b"
    using assms by (simp_all add: take_bit_nat_eq_self_iff)
  then have "take_bit n (unat a XOR unat b) = unat a XOR unat b"
    by (simp add: take_bit_xor)
  then have "unat a XOR unat b < 2 ^ n"
    by (rule take_bit_nat_eq_self_iff [THEN iffD1])
  then show ?thesis
    by (simp add: unsigned_xor_eq)
qed

lemma set_words_below:
  assumes "m \<le> 2 ^ 32"
  shows "set (map (of_nat :: nat \<Rightarrow> uint) [0..<m]) = {w. unat w < m}"
proof (intro set_eqI iffI)
  fix w :: uint
  assume "w \<in> set (map of_nat [0..<m])"
  then obtain i where "i < m" "w = of_nat i" by auto
  then show "w \<in> {w. unat w < m}"
    using assms by (simp add: unat_of_nat)
next
  fix w :: uint
  assume "w \<in> {w. unat w < m}"
  then have "unat w \<in> {0..<m}" by simp
  then have "of_nat (unat w) \<in> (of_nat :: nat \<Rightarrow> uint) ` {0..<m}"
    by (rule imageI)
  then show "w \<in> set (map of_nat [0..<m])" by simp
qed

lemma sorted_words_below:
  assumes "m \<le> 2 ^ 32"
  shows "sorted_wrt (<) (map (of_nat :: nat \<Rightarrow> uint) [0..<m])"
proof -
  have "(of_nat i :: uint) < of_nat j" if "i < j" "j < m" for i j
    using that assms by (simp add: word_less_nat_alt unat_of_nat)
  then show ?thesis
    by (simp add: sorted_wrt_map sorted_wrt_iff_nth_less)
qed

lemma make_code_words_facts:
  assumes "unat (code_length c) < 32"
  shows "set (make_code_words c) = {w. unat w < 2 ^ unat (code_length c) \<and> is_code_word c w}"
    and "sorted_wrt (<) (make_code_words c)"
proof -
  let ?n = "unat (code_length c)"
  have "(2 :: nat) ^ ?n < 2 ^ 32"
    by (rule power_strict_increasing) (use assms in simp_all)
  moreover have "(2 :: uint) ^ ?n = of_nat (2 ^ ?n)"
    by simp
  ultimately have u: "unat (find_power 2 (code_length c)) = 2 ^ ?n"
    by (simp only: find_power_eq unat_of_nat) simp
  have le: "(2 :: nat) ^ ?n \<le> 2 ^ 32"
    by (rule power_increasing) (use assms in simp_all)
  show "set (make_code_words c) = {w. unat w < 2 ^ ?n \<and> is_code_word c w}"
    unfolding make_code_words_def u set_filter set_words_below [OF le] by auto
  show "sorted_wrt (<) (make_code_words c)"
    unfolding make_code_words_def u
    by (rule sorted_wrt_filter) (rule sorted_words_below [OF le])
qed

lemma is_code_word_fields:
  "parity_check c = parity_check c' \<Longrightarrow> code_length c = code_length c' \<Longrightarrow>
   is_code_word c w = is_code_word c' w"
  by (simp add: is_code_word_iff dot_product_def)

lemma code_words_new_CyclicCode:
  "code_words (new_CyclicCode G H n) =
   make_code_words \<lparr>generator = G, parity_check = H, code_words = [], code_length = n,
     min_distance = 0\<rparr>"
  by (simp add: new_CyclicCode_def Let_def)

lemma fields_new_CyclicCode [simp]:
  "code_length (new_CyclicCode G H n) = n"
  "parity_check (new_CyclicCode G H n) = H"
  "generator (new_CyclicCode G H n) = G"
  by (simp_all add: new_CyclicCode_def Let_def)



lemma is_code_word_new_CyclicCode:
  "is_code_word \<lparr>generator = G, parity_check = H, code_words = [], code_length = n,
     min_distance = 0\<rparr> w = is_code_word (new_CyclicCode G H n) w"
  by (rule is_code_word_fields) simp_all

lemma set_code_words_new_CyclicCode:
  assumes "unat n < 32"
  shows "set (code_words (new_CyclicCode G H n)) =
         {w. unat w < 2 ^ unat n \<and> is_code_word (new_CyclicCode G H n) w}"
proof -
  have "unat (code_length \<lparr>generator = G, parity_check = H, code_words = [], code_length = n,
     min_distance = 0\<rparr>) < 32"
    using assms by simp
  from make_code_words_facts(1) [OF this] show ?thesis
    by (simp only: code_words_new_CyclicCode is_code_word_new_CyclicCode
        CyclicCode.select_convs)
qed

lemma sorted_code_words_new_CyclicCode:
  assumes "unat n < 32"
  shows "sorted_wrt (<) (code_words (new_CyclicCode G H n))"
proof -
  have "unat (code_length \<lparr>generator = G, parity_check = H, code_words = [], code_length = n,
     min_distance = 0\<rparr>) < 32"
    using assms by simp
  from make_code_words_facts(2) [OF this] show ?thesis
    by (simp only: code_words_new_CyclicCode)
qed

lemma codebook_empty_at_32: "code_words (new_CyclicCode G H 32) = []"
proof -
  have "find_power 2 (32 :: uint) = 0"
    by (simp add: find_power_eq)
  then show ?thesis
    by (simp add: code_words_new_CyclicCode make_code_words_def)
qed

subsection \<open>The size of the codebook\<close>

text \<open>
  The words orthogonal to a list of rows form a group under XOR; a word orthogonal to all
  of them is a sum of rows; and every row that is not a sum of the others halves the
  group.
\<close>

lemma parity_fold_xor:
  "odd (length (filter (\<lambda>i. bit ((a XOR b) AND h) i) xs)) =
   (odd (length (filter (\<lambda>i. bit (a AND h) i) xs)) \<noteq> odd (length (filter (\<lambda>i. bit (b AND (h :: uint)) i) xs)))"
  by (induction xs) (auto simp: bit_xor_iff bit_and_iff)

lemma parity_with_xor_right:
  "parity_with n h (a XOR b) = (parity_with n h a \<noteq> parity_with n h b)"
  unfolding parity_with_def weight_count_def by (rule parity_fold_xor)

lemma parity_with_xor_left:
  "parity_with n (x XOR h) w = (parity_with n x w \<noteq> parity_with n h w)"
  using parity_with_xor_right [of n w x h]
  by (simp add: parity_with_def and.commute)

lemma parity_with_take_bit: "parity_with n (take_bit n h) w = parity_with n h w"
proof -
  have "filter (\<lambda>i. bit (w AND take_bit n h) i) [0..<n] = filter (\<lambda>i. bit (w AND h) i) [0..<n]"
    by (rule filter_cong) (auto simp: bit_and_iff bit_take_bit_iff)
  then show ?thesis
    by (simp add: parity_with_def weight_count_def)
qed

lemma parity_with_single:
  assumes "i < n" "i < 32"
  shows "parity_with n x (2 ^ i) = bit x i"
proof -
  have "filter (\<lambda>j. bit ((2 ^ i :: uint) AND x) j) [0..<n] = filter (\<lambda>j. j = i \<and> bit x i) [0..<n]"
    using assms(2) by (intro filter_cong) (auto simp: bit_and_iff bit_exp_iff)
  moreover have "length (filter (\<lambda>j. j = i \<and> P) [0..<n]) = (if P then 1 else 0)" for P
    using assms(1) by (induction n) auto
  ultimately show ?thesis
    by (simp add: parity_with_def weight_count_def)
qed

lemma unat_take_bit_less: "unat (take_bit n (h :: uint)) < 2 ^ n"
  by (simp add: unsigned_take_bit_eq)

lemma solutions_xor:
  "a \<in> solutions n H \<Longrightarrow> b \<in> solutions n H \<Longrightarrow> a XOR b \<in> solutions n H"
  by (simp add: solutions_def parity_with_xor_right unat_xor_less)

lemma solutions_Cons:
  "solutions n (h # H) = {w \<in> solutions n H. \<not> parity_with n h w}"
  by (auto simp: solutions_def)


lemma vanish_extend:
  assumes v: "v \<in> solutions n H" "parity_with n h v" "\<not> parity_with n y v"
    and y: "\<forall>w\<in>solutions n (h # H). \<not> parity_with n y w"
  shows "\<forall>w\<in>solutions n H. \<not> parity_with n y w"
proof
  fix w assume w: "w \<in> solutions n H"
  show "\<not> parity_with n y w"
  proof (cases "parity_with n h w")
    case False
    then have "w \<in> solutions n (h # H)"
      using w by (simp add: solutions_Cons)
    then show ?thesis using y by blast
  next
    case True
    have "w XOR v \<in> solutions n H"
      using w v(1) by (rule solutions_xor)
    moreover have "\<not> parity_with n h (w XOR v)"
      using True v(2) by (simp add: parity_with_xor_right)
    ultimately have "w XOR v \<in> solutions n (h # H)"
      by (simp add: solutions_Cons)
    then have "\<not> parity_with n y (w XOR v)"
      using y by blast
    then show ?thesis
      using v(3) by (simp add: parity_with_xor_right)
  qed
qed

lemma annihilator_in_span:
  assumes "n \<le> 32"
  shows "unat x < 2 ^ n \<Longrightarrow> \<forall>w\<in>solutions n H. \<not> parity_with n x w \<Longrightarrow>
         x \<in> set (span_rows n H)"
proof (induction H arbitrary: x)
  case Nil
  have "\<not> bit x i" for i
  proof (cases "i < n")
    case True
    then have i: "i < 32" using assms by simp
    have "(2 :: nat) ^ i < 2 ^ n"
      using True by simp
    moreover have "(2 :: nat) ^ i < 2 ^ 32"
      by (rule power_strict_increasing) (use i in simp_all)
    then have "unat (of_nat (2 ^ i) :: uint) = 2 ^ i"
      by (simp only: unat_of_nat) simp
    then have "unat (2 ^ i :: uint) = 2 ^ i"
      by simp
    ultimately have "(2 ^ i :: uint) \<in> solutions n []"
      by (simp add: solutions_def)
    then have "\<not> parity_with n x (2 ^ i)"
      using Nil.prems(2) by blast
    then show ?thesis
      by (simp add: parity_with_single [OF True i])
  next
    case False
    have "take_bit n (unat x) = unat x"
      using Nil.prems(1) by (simp add: take_bit_nat_eq_self_iff)
    then have "bit (unat x) i = bit (take_bit n (unat x)) i"
      by simp
    then show ?thesis
      using False by (simp add: bit_take_bit_iff bit_unsigned_iff)
  qed
  then have "x = 0"
    by (simp add: bit_eq_iff)
  then show ?case by simp
next
  case (Cons h H)
  show ?case
  proof (cases "\<exists>v\<in>solutions n H. parity_with n h v")
    case False
    then have "solutions n (h # H) = solutions n H"
      by (auto simp: solutions_Cons)
    then have "x \<in> set (span_rows n H)"
      using Cons.prems by (intro Cons.IH) simp_all
    then show ?thesis by simp
  next
    case True
    then obtain v where v: "v \<in> solutions n H" "parity_with n h v"
      by blast
    show ?thesis
    proof (cases "parity_with n x v")
      case False
      from vanish_extend [OF v False Cons.prems(2)]
      have "x \<in> set (span_rows n H)"
        using Cons.prems(1) by (intro Cons.IH)
      then show ?thesis by simp
    next
      case True
      let ?y = "x XOR take_bit n h"
      have py: "parity_with n ?y w = (parity_with n x w \<noteq> parity_with n h w)" for w
        by (simp add: parity_with_xor_left parity_with_take_bit)
      have "\<not> parity_with n ?y v"
        using True v(2) by (simp add: py)
      moreover have "\<forall>w\<in>solutions n (h # H). \<not> parity_with n ?y w"
        using Cons.prems(2) by (simp add: py solutions_Cons)
      ultimately have "\<forall>w\<in>solutions n H. \<not> parity_with n ?y w"
        by (rule vanish_extend [OF v])
      moreover have "unat ?y < 2 ^ n"
        using Cons.prems(1) unat_take_bit_less by (rule unat_xor_less)
      ultimately have "?y \<in> set (span_rows n H)"
        by (intro Cons.IH)
      then have "?y XOR take_bit n h \<in> set (span_rows n (h # H))"
        by simp
      moreover have "?y XOR take_bit n h = x"
        by (simp add: xor.assoc)
      ultimately show ?thesis
        by simp
    qed
  qed
qed

lemma solutions_halve:
  assumes v: "v \<in> solutions n H" "parity_with n h v"
  shows "card (solutions n (h # H)) * 2 = card (solutions n H)"
proof -
  let ?S0 = "solutions n (h # H)"
  let ?S1 = "{w \<in> solutions n H. parity_with n h w}"
  have img: "(\<lambda>w. w XOR v) ` ?S0 = ?S1"
  proof (intro set_eqI iffI)
    fix w assume "w \<in> (\<lambda>w. w XOR v) ` ?S0"
    then obtain u where u: "u \<in> ?S0" "w = u XOR v" by blast
    then have "u \<in> solutions n H" "\<not> parity_with n h u"
      by (simp_all add: solutions_Cons)
    then show "w \<in> ?S1"
      using u(2) v by (simp add: solutions_xor parity_with_xor_right)
  next
    fix w assume "w \<in> ?S1"
    then have w: "w \<in> solutions n H" "parity_with n h w" by simp_all
    then have "w XOR v \<in> ?S0"
      using v by (simp add: solutions_Cons solutions_xor parity_with_xor_right)
    moreover have "w = (w XOR v) XOR v"
      by (simp add: xor.assoc)
    ultimately show "w \<in> (\<lambda>w. w XOR v) ` ?S0"
      by (rule rev_image_eqI)
  qed
  have "inj_on (\<lambda>w. w XOR v) ?S0"
  proof (rule inj_onI)
    fix a b assume "a XOR v = b XOR v"
    then have "(a XOR v) XOR v = (b XOR v) XOR v"
      by simp
    then show "a = b"
      by (simp add: xor.assoc)
  qed
  then have "card ((\<lambda>w. w XOR v) ` ?S0) = card ?S0"
    by (rule card_image)
  then have c1: "card ?S1 = card ?S0"
    by (simp only: img)
  have "solutions n H = ?S0 \<union> ?S1"
    by (auto simp: solutions_Cons)
  moreover have "?S0 \<inter> ?S1 = {}"
    by (auto simp: solutions_Cons)
  ultimately have "card (solutions n H) = card ?S0 + card ?S1"
    by (metis card_Un_disjoint finite)
  then show ?thesis
    using c1 by simp
qed

lemma card_words_below:
  assumes "n \<le> 32"
  shows "card {w :: uint. unat w < 2 ^ n} = 2 ^ n"
proof -
  have le: "(2 :: nat) ^ n \<le> 2 ^ 32"
    by (rule power_increasing) (use assms in simp_all)
  have "distinct (map (of_nat :: nat \<Rightarrow> uint) [0..<2 ^ n])"
    using sorted_words_below [OF le] by (simp add: strict_sorted_iff)
  then have "card (set (map (of_nat :: nat \<Rightarrow> uint) [0..<2 ^ n])) =
             length (map (of_nat :: nat \<Rightarrow> uint) [0..<2 ^ n])"
    by (rule distinct_card)
  then have "card (set (map (of_nat :: nat \<Rightarrow> uint) [0..<2 ^ n])) = 2 ^ n"
    by (simp only: length_map length_upt diff_zero)
  then show ?thesis
    by (simp only: set_words_below [OF le])
qed

lemma take_bit_xor_all_Cons:
  "take_bit n (xor_all (h # rows)) = take_bit n (xor_all rows) XOR take_bit n h"
proof -
  have "xor_all (h # rows) = h XOR xor_all rows"
    by (simp add: xor_all_def)
  then show ?thesis
    by (simp only: take_bit_xor xor.commute [of "take_bit n h"])
qed


lemma set_subseqs_Cons: "set (subseqs (h # H)) = (#) h ` set (subseqs H) \<union> set (subseqs H)"
  by (simp add: Let_def)

lemma set_span_rows:
  "set (span_rows n H) = (\<lambda>rows. take_bit n (xor_all rows)) ` set (subseqs H)"
proof (induction H)
  case Nil
  show ?case by (simp add: xor_all_def)
next
  case (Cons h H)
  let ?f = "\<lambda>rows. take_bit n (xor_all rows)"
  have "?f ` set (subseqs (h # H)) = ?f ` ((#) h ` set (subseqs H)) \<union> ?f ` set (subseqs H)"
    by (simp only: set_subseqs_Cons image_Un)
  also have "?f ` ((#) h ` set (subseqs H)) = (\<lambda>x. x XOR take_bit n h) ` ?f ` set (subseqs H)"
    by (simp only: image_image take_bit_xor_all_Cons)
  finally show ?case
    by (simp only: span_rows.simps set_append set_map Cons.IH Un_commute)
qed


lemma independent_rows_Nil: "independent_rows n []"
  by (simp add: independent_rows_def)

lemma independent_rows_Cons:
  "independent_rows n (h # H) \<longleftrightarrow>
   take_bit n h \<notin> set (span_rows n H) \<and> independent_rows n H"
proof -
  have eq: "take_bit n (xor_all (h # rows)) = 0 \<longleftrightarrow> take_bit n h = take_bit n (xor_all rows)"
    for rows
  proof
    assume "take_bit n (xor_all (h # rows)) = 0"
    then have "(take_bit n (xor_all rows) XOR take_bit n h) XOR take_bit n h = 0 XOR take_bit n h"
      by (simp only: take_bit_xor_all_Cons)
    then show "take_bit n h = take_bit n (xor_all rows)"
      by (simp add: xor.assoc)
  next
    assume "take_bit n h = take_bit n (xor_all rows)"
    then show "take_bit n (xor_all (h # rows)) = 0"
      by (simp add: take_bit_xor_all_Cons)
  qed
  have "independent_rows n (h # H) \<longleftrightarrow>
        (\<forall>rows\<in>set (subseqs H). take_bit n (xor_all (h # rows)) \<noteq> 0) \<and>
        independent_rows n H"
    unfolding independent_rows_def set_subseqs_Cons by blast
  also have "(\<forall>rows\<in>set (subseqs H). take_bit n (xor_all (h # rows)) \<noteq> 0) \<longleftrightarrow>
             take_bit n h \<notin> set (span_rows n H)"
    unfolding eq set_span_rows by blast
  finally show ?thesis .
qed

lemma card_solutions:
  assumes "n \<le> 32"
  shows "independent_rows n H \<Longrightarrow> card (solutions n H) * 2 ^ length H = 2 ^ n"
proof (induction H)
  case Nil
  show ?case
    using card_words_below [OF assms] by (simp add: solutions_def)
next
  case (Cons h H)
  then have out: "take_bit n h \<notin> set (span_rows n H)" and ind: "independent_rows n H"
    by (simp_all add: independent_rows_Cons)
  have "\<not> (\<forall>w\<in>solutions n H. \<not> parity_with n (take_bit n h) w)"
    using annihilator_in_span [OF assms unat_take_bit_less [of n h], of H] out by blast
  then obtain v where "v \<in> solutions n H" "parity_with n h v"
    by (auto simp: parity_with_take_bit)
  then have "card (solutions n (h # H)) * 2 = card (solutions n H)"
    by (rule solutions_halve)
  then have "card (solutions n (h # H)) * 2 ^ length (h # H) =
             card (solutions n H) * 2 ^ length H"
    by simp
  then show ?case
    using Cons.IH [OF ind] by simp
qed


lemma dot_product_parity_with:
  "dot_product c w col = of_bool (parity_with (unat (code_length c)) (parity_check c ! col) w)"
  by (simp add: dot_product_parity parity_with_def weight_count_def bit_and_iff)

lemma is_code_word_parity:
  "is_code_word c w \<longleftrightarrow>
   (\<forall>h\<in>set (parity_check c). \<not> parity_with (unat (code_length c)) h w)"
  by (simp add: is_code_word_iff dot_product_parity_with all_set_conv_all_nth)

lemma set_code_words_solutions:
  assumes "unat n < 32"
  shows "set (code_words (new_CyclicCode G H n)) = solutions (unat n) H"
  by (simp add: set_code_words_new_CyclicCode [OF assms] solutions_def is_code_word_parity)

lemma length_code_words:
  assumes "unat n < 32" "independent_rows (unat n) H"
  shows "length (code_words (new_CyclicCode G H n)) * 2 ^ length H = 2 ^ unat n"
proof -
  have "distinct (code_words (new_CyclicCode G H n))"
    using sorted_code_words_new_CyclicCode [OF assms(1), of G H] by (simp add: strict_sorted_iff)
  then have "length (code_words (new_CyclicCode G H n)) = card (solutions (unat n) H)"
    by (simp only: distinct_card flip: set_code_words_solutions [OF assms(1), of G H])
  moreover have "unat n \<le> 32"
    using assms(1) by simp
  ultimately show ?thesis
    using card_solutions [of "unat n" H] assms(2) by simp
qed

text \<open>
  Claim C8, as amended. For every construction with a code length \<open>n\<close> below 32 the
  codebook contains the zero word, is closed under XOR and is enumerated in strictly
  increasing numeric order. When the rows of the parity check matrix are linearly
  independent over GF(2), the size of the codebook is \<open>2 ^ (n - r)\<close>, \<open>r\<close> the number of
  parity rows (the size times \<open>2 ^ r\<close> is \<open>2 ^ n\<close>); so it is \<open>2 ^ k\<close> when, moreover, the
  parity check matrix has \<open>n - k\<close> rows for the \<open>k\<close> rows of the generator matrix.
\<close>

theorem codebook_invariants:
  assumes "unat n < 32"
  shows "0 \<in> set (code_words (new_CyclicCode G H n)) \<and>
         (\<forall>a\<in>set (code_words (new_CyclicCode G H n)).
            \<forall>b\<in>set (code_words (new_CyclicCode G H n)).
              a XOR b \<in> set (code_words (new_CyclicCode G H n))) \<and>
         sorted_wrt (<) (code_words (new_CyclicCode G H n)) \<and>
         (independent_rows (unat n) H \<longrightarrow>
            length (code_words (new_CyclicCode G H n)) * 2 ^ length H = 2 ^ unat n) \<and>
         (independent_rows (unat n) H \<and> length G + length H = unat n \<longrightarrow>
            length (code_words (new_CyclicCode G H n)) = 2 ^ length G)"
proof (intro conjI ballI impI)
  note s = set_code_words_new_CyclicCode [OF assms, of G H]
  show "0 \<in> set (code_words (new_CyclicCode G H n))"
    unfolding s by (simp add: is_code_word_zero)
  show "a XOR b \<in> set (code_words (new_CyclicCode G H n))"
    if "a \<in> set (code_words (new_CyclicCode G H n))"
      "b \<in> set (code_words (new_CyclicCode G H n))" for a b
    using that unfolding s by (simp add: is_code_word_xor unat_xor_less)
  show "sorted_wrt (<) (code_words (new_CyclicCode G H n))"
    by (rule sorted_code_words_new_CyclicCode [OF assms])
  show "length (code_words (new_CyclicCode G H n)) * 2 ^ length H = 2 ^ unat n"
    if "independent_rows (unat n) H"
    using assms that by (rule length_code_words)
  show "length (code_words (new_CyclicCode G H n)) = 2 ^ length G"
    if h: "independent_rows (unat n) H \<and> length G + length H = unat n"
  proof -
    have "length (code_words (new_CyclicCode G H n)) * 2 ^ length H = 2 ^ (length G + length H)"
      using length_code_words [OF assms, of H G] h by simp
    then have "length (code_words (new_CyclicCode G H n)) * 2 ^ length H =
               2 ^ length G * 2 ^ length H"
      by (simp only: power_add)
    then show ?thesis
      by simp
  qed
qed

text \<open>
  The size claimed for every construction fails when the parity rows are not independent:
  one generator row and two equal parity rows on length 3 give a codebook of four words.
\<close>

lemma size_example_code:
  "code_words (new_CyclicCode [7] [3, 3] 3) = [0, 3, 4, 7]"
  by code_simp

lemma size_example_dependent: "\<not> independent_rows 3 [3, 3]"
  by code_simp

theorem codebook_size_counterexample:
  "length (code_words (new_CyclicCode [7] [3, 3] 3)) \<noteq>
   2 ^ length (generator (new_CyclicCode [7] [3, 3] 3))"
  by (simp add: size_example_code)

text \<open>
  The cyclic Hamming code of length 7 with the generator polynomial \<open>1011\<close>: four generator
  rows, three independent parity rows and sixteen code words.
\<close>

lemma hamming_example_code:
  "new_CyclicCode [88, 44, 22, 11] [116, 58, 29] 7 =
   \<lparr>generator = [88, 44, 22, 11], parity_check = [116, 58, 29],
    code_words = [0, 11, 22, 29, 39, 44, 49, 58, 69, 78, 83, 88, 98, 105, 116, 127],
    code_length = 7, min_distance = 3\<rparr>"
  by code_simp

lemma hamming_example_independent: "independent_rows 7 [116, 58, 29]"
  by code_simp

theorem codebook_invariants_witness:
  "unat (7 :: uint) < 32 \<and> independent_rows (unat (7 :: uint)) [116, 58, 29] \<and>
   length [88 :: uint, 44, 22, 11] + length [116 :: uint, 58, 29] = unat (7 :: uint) \<and>
   0 \<in> set (code_words (new_CyclicCode [88, 44, 22, 11] [116, 58, 29] 7)) \<and>
   11 \<in> set (code_words (new_CyclicCode [88, 44, 22, 11] [116, 58, 29] 7)) \<and>
   22 \<in> set (code_words (new_CyclicCode [88, 44, 22, 11] [116, 58, 29] 7)) \<and>
   11 XOR 22 \<in> set (code_words (new_CyclicCode [88, 44, 22, 11] [116, 58, 29] 7)) \<and>
   sorted_wrt (<) (code_words (new_CyclicCode [88, 44, 22, 11] [116, 58, 29] 7)) \<and>
   length (code_words (new_CyclicCode [88, 44, 22, 11] [116, 58, 29] 7)) = 16"
proof -
  let ?c = "new_CyclicCode [88, 44, 22, 11] [116, 58, 29] 7"
  have h: "unat (7 :: uint) < 32" by simp
  have ind: "independent_rows (unat (7 :: uint)) [116, 58, 29]"
    using hamming_example_independent by simp
  have rows: "length [88 :: uint, 44, 22, 11] + length [116 :: uint, 58, 29] = unat (7 :: uint)"
    by simp
  have mem: "11 \<in> set (code_words ?c)" "22 \<in> set (code_words ?c)"
    by (simp_all add: hamming_example_code)
  note inv = codebook_invariants [OF h, of "[88, 44, 22, 11]" "[116, 58, 29]"]
  from inv have "0 \<in> set (code_words ?c)" and "sorted_wrt (<) (code_words ?c)"
    by blast+
  moreover from inv mem have "11 XOR 22 \<in> set (code_words ?c)"
    by blast
  moreover from inv ind rows have "length (code_words ?c) = 2 ^ length [88 :: uint, 44, 22, 11]"
    by blast
  then have "length (code_words ?c) = 16"
    by simp
  ultimately show ?thesis
    using h ind rows mem by blast
qed

section \<open>Cyclic shifts and the order of the syndromes\<close>

lemma bit_rotate_left:
  "bit (rotate_left m w i) q \<longleftrightarrow> q < m \<and> q < 32 \<and> bit w ((q + m - i mod m) mod m)"
  by (auto simp: rotate_left_def bit_horner_sum_bit_word_iff)

lemma bit_rotate_right:
  "bit (rotate_right m w i) q \<longleftrightarrow> q < m \<and> q < 32 \<and> bit w ((q + i) mod m)"
  by (auto simp: rotate_right_def bit_horner_sum_bit_word_iff)

lemma mod_shift_iff:
  fixes n p a q :: nat
  assumes "p < n"
  shows "(p + a) mod n = q \<longleftrightarrow> q < n \<and> p = (q + n - a mod n) mod n"
proof -
  define b where "b = a mod n"
  have n: "0 < n" using assms by simp
  then have b: "b < n" by (simp add: b_def)
  have eq: "(p + a) mod n = (p + b) mod n"
    by (simp add: b_def mod_add_right_eq)
  have undo_eq: "(q + n - b) mod n = (if b \<le> q then q - b else q + n - b)" if "q < n" for q
  proof (cases "b \<le> q")
    case True
    then have e: "q + n - b = (q - b) + n" by simp
    have lt: "q - b < n" using that by arith
    have "(q + n - b) mod n = ((q - b) + n) mod n"
      by (simp only: e)
    also have "\<dots> = (q - b) mod n"
      by simp
    also have "\<dots> = q - b"
      using lt by simp
    finally show ?thesis using True by simp
  next
    case False
    then have "q + n - b < n" using b by arith
    then show ?thesis using False by simp
  qed
  have shift_eq: "(p + b) mod n = (if p + b < n then p + b else p + b - n)"
  proof (cases "p + b < n")
    case True
    then show ?thesis by simp
  next
    case False
    then have "n \<le> p + b" by simp
    moreover have "p + b - n < n" using assms b by arith
    ultimately show ?thesis using False by (simp add: le_mod_geq)
  qed
  have "(p + b) mod n = q \<longleftrightarrow> q < n \<and> p = (q + n - b) mod n"
  proof
    assume l: "(p + b) mod n = q"
    then have qn: "q < n" using n by auto
    have "p = (if b \<le> q then q - b else q + n - b)"
      using l shift_eq assms b by (auto split: if_splits)
    then show "q < n \<and> p = (q + n - b) mod n"
      using qn undo_eq [OF qn] by simp
  next
    assume r: "q < n \<and> p = (q + n - b) mod n"
    then have qn: "q < n" and "p = (q + n - b) mod n" by blast+
    then have "p = (if b \<le> q then q - b else q + n - b)"
      using undo_eq [OF qn] by simp
    then have "(if p + b < n then p + b else p + b - n) = q"
      using qn b by (auto split: if_splits)
    then show "(p + b) mod n = q"
      using shift_eq by simp
  qed
  then show ?thesis
    unfolding eq b_def .
qed

lemma bit_sum_of_place_values:
  assumes "distinct ps" "\<forall>p\<in>set ps. p < 32 \<and> \<not> bit acc p"
  shows "bit (fold (\<lambda>place_value (cyclic_shift :: uint). cyclic_shift + find_power 2 place_value)
               (map of_nat ps) acc) q \<longleftrightarrow> bit acc q \<or> q \<in> set ps"
  using assms
proof (induction ps arbitrary: acc)
  case Nil
  show ?case by simp
next
  case (Cons p ps)
  have p: "p < 32" "\<not> bit acc p"
    using Cons.prems(2) by simp_all
  have fp: "find_power 2 (of_nat p) = (2 :: uint) ^ p"
    using p(1) by (simp add: find_power_eq unat_of_nat)
  have "acc + 2 ^ p = acc OR 2 ^ p"
    by (rule disjunctive_add) (use p(2) in \<open>auto simp: bit_exp_iff\<close>)
  then have b: "bit (acc + 2 ^ p) k \<longleftrightarrow> bit acc k \<or> k = p" for k
    using p(1) by (auto simp: bit_or_iff bit_exp_iff)
  have "\<forall>p'\<in>set ps. p' < 32 \<and> \<not> bit (acc + 2 ^ p) p'"
    using Cons.prems by (auto simp: b)
  moreover have "distinct ps"
    using Cons.prems(1) by simp
  ultimately have "bit (fold (\<lambda>place_value (cyclic_shift :: uint). cyclic_shift + find_power 2 place_value)
               (map of_nat ps) (acc + 2 ^ p)) q \<longleftrightarrow> bit (acc + 2 ^ p) q \<or> q \<in> set ps"
    by (intro Cons.IH)
  then show ?case
    by (auto simp: fp b)
qed

lemma word_of_shifted_place_values:
  assumes "n \<le> 32"
  shows "word_of_place_values
           (map of_nat (map (\<lambda>p. (p + a) mod n) (filter (\<lambda>i. bit w i) [0..<n]))) =
         rotate_left n w a"
proof (rule bit_eqI)
  fix q
  let ?ps = "map (\<lambda>p. (p + a) mod n) (filter (\<lambda>i. bit w i) [0..<n])"
  have inj: "inj_on (\<lambda>p. (p + a) mod n) (set (filter (\<lambda>i. bit w i) [0..<n]))"
  proof (rule inj_onI)
    fix x y
    assume "x \<in> set (filter (\<lambda>i. bit w i) [0..<n])" "y \<in> set (filter (\<lambda>i. bit w i) [0..<n])"
      "(x + a) mod n = (y + a) mod n"
    then have "x < n" "y < n" "(x + a) mod n = (y + a) mod n" by simp_all
    then show "x = y"
      using mod_shift_iff [of x n a "(y + a) mod n"] mod_shift_iff [of y n a "(y + a) mod n"]
      by simp
  qed
  have d: "distinct ?ps"
    using inj by (simp add: distinct_map)
  have lt: "\<forall>p\<in>set ?ps. p < 32 \<and> \<not> bit (0 :: uint) p"
  proof
    fix p assume "p \<in> set ?ps"
    then obtain x where "x < n" "p = (x + a) mod n" by auto
    then have "p < n" by simp
    then show "p < 32 \<and> \<not> bit (0 :: uint) p" using assms by simp
  qed
  have "bit (word_of_place_values (map of_nat ?ps)) q \<longleftrightarrow> q \<in> set ?ps"
    unfolding word_of_place_values_def
    using bit_sum_of_place_values [OF d lt, of q] by simp
  also have "\<dots> \<longleftrightarrow> (\<exists>p<n. bit w p \<and> (p + a) mod n = q)"
    by auto
  also have "\<dots> \<longleftrightarrow> q < n \<and> bit w ((q + n - a mod n) mod n)"
  proof
    assume "\<exists>p<n. bit w p \<and> (p + a) mod n = q"
    then obtain p where p: "p < n" "bit w p" "(p + a) mod n = q" by blast
    then show "q < n \<and> bit w ((q + n - a mod n) mod n)"
      using mod_shift_iff [of p n a q] by simp
  next
    assume r: "q < n \<and> bit w ((q + n - a mod n) mod n)"
    let ?p = "(q + n - a mod n) mod n"
    have "?p < n" using r by simp
    moreover have "(?p + a) mod n = q"
      using mod_shift_iff [of ?p n a q] r \<open>?p < n\<close> by simp
    ultimately show "\<exists>p<n. bit w p \<and> (p + a) mod n = q"
      using r by blast
  qed
  also have "\<dots> \<longleftrightarrow> bit (rotate_left n w a) q"
    using assms by (auto simp: bit_rotate_left)
  finally show "bit (word_of_place_values (map of_nat ?ps)) q = bit (rotate_left n w a) q" .
qed


lemma cyclic_shifts_fold:
  "fold (\<lambda>i (bit_place_values, cyclic_shifts).
           (map adv bit_place_values, cyclic_shifts @ [h (map adv bit_place_values)]))
        [a..<a + k] (B, cs) =
   (map (adv ^^ k) B, cs @ map (\<lambda>j. h (map (adv ^^ Suc j) B)) [0..<k])"
proof (induction k)
  case 0
  show ?case by simp
next
  case (Suc k)
  have "[a..<a + Suc k] = [a..<a + k] @ [a + k]"
    by simp
  then show ?case
    by (simp only: fold_append comp_apply Suc.IH) (simp add: comp_def)
qed

lemma get_cyclic_shifts_eq:
  "get_cyclic_shifts w nw =
   w # map (\<lambda>j. word_of_place_values
                  (map ((\<lambda>pv. (pv + 1) mod nw) ^^ Suc j) (bit_place_values_of w (unat nw))))
         [0..<unat nw - 1]"
proof -
  have "[1..<unat nw] = [1..<1 + (unat nw - 1)]"
    by (cases "unat nw") simp_all
  then show ?thesis
    unfolding get_cyclic_shifts_def Let_def
    by (simp only: cyclic_shifts_fold) simp
qed

lemma word_of_nat_mod:
  fixes nw :: uint
  assumes "a < 2 ^ 32"
  shows "(of_nat a :: uint) mod nw = of_nat (a mod unat nw)"
proof -
  have lt: "a mod unat nw < 2 ^ 32"
    by (rule le_less_trans [OF mod_less_eq_dividend assms])
  have "unat ((of_nat a :: uint) mod nw) = a mod unat nw"
    using assms by (simp add: unat_mod unat_of_nat)
  moreover have "unat (of_nat (a mod unat nw) :: uint) = a mod unat nw"
    using lt by (simp add: unat_of_nat)
  ultimately show ?thesis
    by (simp add: word_unat_eq_iff)
qed

lemma advance_place_value:
  fixes nw :: uint
  assumes "unat nw \<le> 32" "p < unat nw"
  shows "((\<lambda>pv. (pv + 1) mod nw) ^^ j) (of_nat p) = of_nat ((p + j) mod unat nw)"
proof (induction j)
  case 0
  show ?case using assms(2) by simp
next
  case (Suc j)
  let ?m = "(p + j) mod unat nw"
  have "?m < unat nw" using assms(2) by simp
  then have m: "Suc ?m < 2 ^ 32" using assms(1) by simp
  have "((\<lambda>pv. (pv + 1) mod nw) ^^ Suc j) (of_nat p) = (of_nat ?m + 1) mod nw"
    by (simp add: Suc.IH)
  also have "\<dots> = (of_nat (Suc ?m) :: uint) mod nw"
    by (simp add: add.commute)
  also have "\<dots> = of_nat (Suc ?m mod unat nw)"
    using m by (rule word_of_nat_mod)
  also have "Suc ?m mod unat nw = (p + Suc j) mod unat nw"
    by (simp add: mod_Suc_eq)
  finally show ?case .
qed

lemma bit_place_values_of_eq:
  "bit_place_values_of w n = map of_nat (filter (\<lambda>i. bit w i) [0..<n])"
  by (simp only: bit_place_values_of_def test_bit_conv)

lemma get_cyclic_shifts_nth:
  assumes "unat nw \<le> 32" "0 < j" "j < unat nw"
  shows "get_cyclic_shifts w nw ! j = rotate_left (unat nw) w j"
proof -
  obtain k where k: "j = Suc k" using assms(2) by (cases j) simp_all
  let ?adv = "\<lambda>pv. (pv + 1) mod nw"
  have "map (?adv ^^ j) (map of_nat (filter (\<lambda>i. bit w i) [0..<unat nw])) =
        map of_nat (map (\<lambda>p. (p + j) mod unat nw) (filter (\<lambda>i. bit w i) [0..<unat nw]))"
    using assms(1) by (simp add: advance_place_value del: funpow.simps)
  then have "word_of_place_values (map (?adv ^^ j) (bit_place_values_of w (unat nw))) =
        rotate_left (unat nw) w j"
    using word_of_shifted_place_values [OF assms(1), of j w]
    by (simp only: bit_place_values_of_eq)
  moreover have "k < unat nw - 1"
    using assms(3) k by simp
  then have "get_cyclic_shifts w nw ! j =
        word_of_place_values (map (?adv ^^ j) (bit_place_values_of w (unat nw)))"
    unfolding get_cyclic_shifts_eq k by (simp del: funpow.simps)
  ultimately show ?thesis by simp
qed

lemma get_cyclic_shifts_0: "get_cyclic_shifts w nw ! 0 = w"
  by (simp add: get_cyclic_shifts_eq)

lemma inner_transpose_length:
  "length (fold (\<lambda>col mt. if P col then mt[f col := g col mt] else mt) cols mt) = length mt"
  by (induction cols arbitrary: mt) simp_all

lemma outer_transpose_length:
  "(\<And>r mt. length (F r mt) = length mt) \<Longrightarrow> length (fold F rows mt) = length mt"
  by (induction rows arbitrary: mt) simp_all

lemma length_get_transpose: "length (get_transpose matrix n) = unat n"
proof -
  have "length (get_transpose matrix n) = length (replicate (unat n) (0 :: uint))"
    unfolding get_transpose_def Let_def
    by (rule outer_transpose_length) (rule inner_transpose_length)
  then show ?thesis by simp
qed

lemma syndrome_of_low_bits:
  assumes "\<And>p. p < length T \<Longrightarrow> bit w p = bit w' p"
  shows "syndrome_of T w = syndrome_of T w'"
  unfolding syndrome_of_def test_bit_conv
  by (rule fold_cong) (use assms in \<open>auto\<close>)

lemma rotate_left_0_low_bits:
  assumes "p < n"
  shows "bit (rotate_left n w 0) p = bit w p"
  using assms by (auto simp: bit_rotate_left dest: bit_imp_le_length)


lemma reordered_shifts_nth:
  assumes "cs \<noteq> []" "i < length cs"
  shows "(cs ! 0 # map (\<lambda>i. cs ! i) (rev [1..<length cs])) ! i = cs ! ((length cs - i) mod length cs)"
proof (cases i)
  case 0
  then show ?thesis by simp
next
  case (Suc k)
  have k: "k < length [1..<length cs]"
    using assms(2) Suc by simp
  have "rev [1..<length cs] ! k = [1..<length cs] ! (length [1..<length cs] - Suc k)"
    using k by (rule rev_nth)
  also have "\<dots> = length cs - i"
    using assms(2) Suc by simp
  finally have "(cs ! 0 # map (\<lambda>i. cs ! i) (rev [1..<length cs])) ! i = cs ! (length cs - i)"
    using k Suc by simp
  moreover have "(length cs - i) mod length cs = length cs - i"
    using assms(2) Suc by simp
  ultimately show ?thesis by simp
qed

text \<open>
  Claim C4, as amended. For a code length of at most 32 and every index \<open>i\<close> below it, the
  \<open>i\<close>-th syndrome built by \<open>decode_word\<close> in \<open>cyclic_codes.h\<close> is the syndrome of the
  received word rotated left by \<open>i\<close> places, while the \<open>i\<close>-th syndrome returned by
  \<open>get_syndromes\<close> in \<open>cyclic_codes_2.h\<close> is the syndrome of the received word rotated left
  by \<open>(n - i) mod n\<close> places, that is rotated right by \<open>i\<close>; both lists have \<open>n\<close> elements.
\<close>

theorem syndrome_order:
  assumes "unat (code_length c) \<le> 32" and "i < unat (code_length c)"
  shows "syndromes_1 c w ! i =
           syndrome_of (get_transpose (parity_check c) (code_length c))
             (rotate_left (unat (code_length c)) w i) \<and>
         get_syndromes c w ! i =
           syndrome_of (get_transpose (parity_check c) (code_length c))
             (rotate_left (unat (code_length c)) w
                ((unat (code_length c) - i) mod unat (code_length c))) \<and>
         length (syndromes_1 c w) = unat (code_length c) \<and>
         length (get_syndromes c w) = unat (code_length c)"
proof -
  let ?n = "unat (code_length c)"
  let ?T = "get_transpose (parity_check c) (code_length c)"
  let ?cs = "get_cyclic_shifts w (code_length c)"
  have len: "length ?cs = ?n"
    using assms(2) by (simp add: length_get_cyclic_shifts)
  have T: "length ?T = ?n"
    by (rule length_get_transpose)
  have shift: "syndrome_of ?T (?cs ! j) = syndrome_of ?T (rotate_left ?n w j)" if "j < ?n" for j
  proof (cases "j = 0")
    case True
    have "syndrome_of ?T w = syndrome_of ?T (rotate_left ?n w 0)"
      by (rule syndrome_of_low_bits) (simp add: T rotate_left_0_low_bits)
    then show ?thesis
      using True by (simp add: get_cyclic_shifts_0)
  next
    case False
    then show ?thesis
      using get_cyclic_shifts_nth [OF assms(1), of j w] that by simp
  qed
  have one: "syndromes_1 c w ! i = syndrome_of ?T (rotate_left ?n w i)"
    using assms(2) len shift [of i] by (simp add: syndromes_1_def Let_def)
  let ?k = "(?n - i) mod ?n"
  have k: "?k < ?n"
    using assms(2) by simp
  let ?rcs = "?cs ! 0 # map (\<lambda>i. ?cs ! i) (rev [1..<length ?cs])"
  have r: "?rcs ! i = ?cs ! ?k"
    using reordered_shifts_nth [of ?cs i] assms(2) len get_cyclic_shifts_nonempty [of w "code_length c"]
    by simp
  have "i < length ?rcs"
    using assms(2) len by simp
  then have "map (syndrome_of ?T) ?rcs ! i = syndrome_of ?T (?rcs ! i)"
    by (rule nth_map)
  moreover have "get_syndromes c w = map (syndrome_of ?T) ?rcs"
    by (simp only: get_syndromes_def Let_def)
  ultimately have two: "get_syndromes c w ! i = syndrome_of ?T (rotate_left ?n w ?k)"
    using shift [OF k] by (simp only: r)
  have "length (syndromes_1 c w) = ?n" "length (get_syndromes c w) = ?n"
    using assms(2) by (simp_all add: length_syndromes_1 length_get_syndromes)
  with one two show ?thesis by simp
qed

text \<open>
  In \<open>cyclic_codes_2.h\<close> the list is not in left-rotation order: on length 3 with the single
  parity row \<open>001\<close>, the syndrome at index 1 of the received word \<open>010\<close> is 1, and the
  syndrome of \<open>010\<close> rotated left by one place is 0.
\<close>

lemma example_code_2:
  "new_CyclicCode2 [4, 2] [1] 3 =
   \<lparr>generator = [4, 2], parity_check = [1], code_words = [0, 2, 4, 6], code_length = 3,
    min_distance = 1, max_burst_length = 3\<rparr>"
  by code_simp

lemma example_syndromes_2:
  "get_syndromes \<lparr>generator = [4, 2], parity_check = [1], code_words = [0, 2, 4, 6],
     code_length = 3, min_distance = 1, max_burst_length = 3\<rparr> 2 = [0, 1, 0]"
  by code_simp

lemma example_rotations:
  "rotate_left 3 2 (Suc 0) = 4" "rotate_left 3 2 2 = 1"
  by (simp_all add: rotate_left_def upt_rec [of _ 3] upt_rec [of _ 2] upt_rec [of _ 1])

lemma example_transpose_syndromes:
  "syndrome_of (get_transpose [1] 3) 4 = 0" "syndrome_of (get_transpose [1] 3) 1 = 1"
  by code_simp+

theorem syndrome_order_counterexample:
  "get_syndromes (new_CyclicCode2 [4, 2] [1] 3) 2 ! 1 \<noteq>
   syndrome_of (get_transpose (parity_check (new_CyclicCode2 [4, 2] [1] 3))
                  (code_length (new_CyclicCode2 [4, 2] [1] 3)))
     (rotate_left (unat (code_length (new_CyclicCode2 [4, 2] [1] 3))) 2 1)"
  by (simp add: example_code_2 example_syndromes_2 example_rotations
      example_transpose_syndromes)

theorem syndrome_order_witness:
  "get_syndromes (new_CyclicCode2 [4, 2] [1] 3) 2 ! 1 =
     syndrome_of (get_transpose [1] 3) (rotate_left 3 2 2) \<and>
   syndrome_of (get_transpose [1] 3) (rotate_left 3 2 2) = 1 \<and>
   syndromes_1 (new_CyclicCode2 [4, 2] [1] 3) 2 ! 1 =
     syndrome_of (get_transpose [1] 3) (rotate_left 3 2 1)"
  using syndrome_order [of "new_CyclicCode2 [4, 2] [1] 3" 1 2]
  by (simp add: example_rotations example_transpose_syndromes)

section \<open>The weight-bound decoder of \<open>cyclic_codes.h\<close>\<close>

lemma scan_weight_found: "scan_weight c syns bound (True, which) = (True, which)"
  by (subst scan_weight.simps) simp

lemma scan_weight_first:
  "which \<le> i \<Longrightarrow> i < length syns \<Longrightarrow> hamming_distance c 0 (syns ! i) \<le> bound \<Longrightarrow>
   (\<And>j. which \<le> j \<Longrightarrow> j < i \<Longrightarrow> \<not> hamming_distance c 0 (syns ! j) \<le> bound) \<Longrightarrow>
   scan_weight c syns bound (False, which) = (True, i)"
proof (induction "i - which" arbitrary: which)
  case 0
  then have "which = i" by simp
  then show ?case
    using "0.prems" by (subst scan_weight.simps) (simp add: scan_weight_found)
next
  case (Suc d)
  then have lt: "which < i" by simp
  then have heavy: "\<not> hamming_distance c 0 (syns ! which) \<le> bound"
    using Suc.prems(4) [of which] by simp
  have "scan_weight c syns bound (False, Suc which) = (True, i)"
    using Suc.hyps(2) lt Suc.prems by (intro Suc.hyps(1)) simp_all
  then show ?case
    using lt Suc.prems(2) heavy by (subst scan_weight.simps) simp
qed

lemma scan_weight_none:
  "(\<And>j. which \<le> j \<Longrightarrow> j < length syns \<Longrightarrow> \<not> hamming_distance c 0 (syns ! j) \<le> bound) \<Longrightarrow>
   fst (scan_weight c syns bound (False, which)) = False"
proof (induction "length syns - which" arbitrary: which)
  case 0
  then show ?case
    by (subst scan_weight.simps) simp
next
  case (Suc d)
  then have lt: "which < length syns" by simp
  then have heavy: "\<not> hamming_distance c 0 (syns ! which) \<le> bound"
    using Suc.prems [of which] by simp
  have "fst (scan_weight c syns bound (False, Suc which)) = False"
    using Suc.hyps(2) Suc.prems by (intro Suc.hyps(1)) simp_all
  then show ?case
    using lt heavy by (subst scan_weight.simps) simp
qed

lemma rotate_left_mod: "rotate_left m w (i mod m) = rotate_left m w i"
  by (simp add: rotate_left_def)

lemma shift_place_values:
  fixes nw s :: uint
  assumes "unat nw \<le> 32" "unat s \<le> 32" "\<forall>p\<in>set ps. p < unat nw"
  shows "map (\<lambda>pv. (pv + s) mod nw) (map of_nat ps) =
         map of_nat (map (\<lambda>p. (p + unat s) mod unat nw) ps)"
proof -
  have "(of_nat p + s) mod nw = of_nat ((p + unat s) mod unat nw)" if "p \<in> set ps" for p
  proof -
    have "p < 32" using that assms(1,3) by auto
    then have lt: "p + unat s < 2 ^ 32" using assms(2) by simp
    have "of_nat p + s = (of_nat (p + unat s) :: uint)"
      by simp
    then show ?thesis
      using word_of_nat_mod [OF lt, of nw] by simp
  qed
  then show ?thesis by simp
qed

lemma relocate_syndrome:
  fixes nw s :: uint
  assumes "unat nw \<le> 32" "unat s \<le> 32"
  shows "word_of_place_values
           (map (\<lambda>pv. (pv + s) mod nw) (bit_place_values_of aligned (unat nw))) =
         rotate_left (unat nw) aligned (unat s)"
proof -
  have "\<forall>p\<in>set (filter (\<lambda>i. bit aligned i) [0..<unat nw]). p < unat nw"
    by simp
  from shift_place_values [OF assms this]
  show ?thesis
    using word_of_shifted_place_values [OF assms(1), of "unat s" aligned]
    by (simp only: bit_place_values_of_eq)
qed

lemma align_shift_eq:
  assumes "unat (code_length c) \<le> 32" "length (parity_check c) \<le> unat (code_length c)"
  shows "align_shift c = unat (code_length c) - length (parity_check c)"
proof -
  let ?n = "unat (code_length c)" and ?r = "length (parity_check c)"
  have "(ucast (code_length c) :: 64 word) = of_nat ?n"
    by simp
  moreover have "(of_nat ?n :: 64 word) - of_nat ?r = of_nat (?n - ?r)"
    using assms(2) by simp
  moreover have "unat (of_nat (?n - ?r) :: 64 word) = ?n - ?r"
    using assms(1) by (simp add: unat_of_nat)
  ultimately show ?thesis
    by (simp only: align_shift_def)
qed

lemma shift_amount_eq:
  fixes nw :: uint
  assumes "i \<le> unat nw"
  shows "unat (nw - of_nat i) = unat nw - i"
proof -
  have "nw - of_nat i = of_nat (unat nw) - of_nat i"
    by simp
  also have "\<dots> = of_nat (unat nw - i)"
    using assms by simp
  finally have "unat (nw - of_nat i) = unat (of_nat (unat nw - i) :: uint)"
    by simp
  also have "\<dots> = unat nw - i"
  proof -
    have "unat nw - i \<le> unat nw" by simp
    moreover have "unat nw < 2 ^ 32" using unsigned_less [of nw] by simp
    ultimately have "unat nw - i < 2 ^ 32" by (rule le_less_trans)
    then show ?thesis by (simp add: unat_of_nat)
  qed
  finally show ?thesis .
qed


lemma light_iff:
  assumes "min_distance c \<noteq> 0"
  shows "hamming_distance c 0 s \<le> (min_distance c - 1) div 2 \<longleftrightarrow>
         weight_count (unat (code_length c)) s \<le> (unat (min_distance c) - 1) div 2"
proof -
  have "unat ((min_distance c - 1) div 2) = (unat (min_distance c) - 1) div 2"
    using assms by (simp add: unat_div unat_minus_one)
  then show ?thesis
    by (simp add: word_le_nat_alt unat_hamming_distance)
qed

lemma decode_word_accept:
  assumes "unat (code_length c) \<le> 32"
    and "length (parity_check c) \<le> unat (code_length c)"
    and "min_distance c \<noteq> 0"
    and "i < length (syndromes_1 c w)"
    and "weight_count (unat (code_length c)) (syndromes_1 c w ! i)
            \<le> (unat (min_distance c) - 1) div 2"
    and "\<forall>j<i. \<not> weight_count (unat (code_length c)) (syndromes_1 c w ! j)
                     \<le> (unat (min_distance c) - 1) div 2"
  shows "decode_word c w =
            Inr (w XOR rotate_left (unat (code_length c))
                         (push_bit (unat (code_length c) - length (parity_check c))
                            (syndromes_1 c w ! i))
                         ((unat (code_length c) - i) mod unat (code_length c)),
                 \<not> is_code_word c
                     (w XOR rotate_left (unat (code_length c))
                         (push_bit (unat (code_length c) - length (parity_check c))
                            (syndromes_1 c w ! i))
                         ((unat (code_length c) - i) mod unat (code_length c))))"
proof -
  let ?n = "unat (code_length c)"
  let ?syns = "syndromes_1 c w"
  let ?bound = "(min_distance c - 1) div 2"
  have scan: "scan_weight c ?syns ?bound (False, 0) = (True, i)"
    using assms(4-6) by (intro scan_weight_first) (simp_all add: light_iff [OF assms(3)])
  from assms(4) have "i < Suc (?n - 1)"
    by (simp add: length_syndromes_1)
  then have "i \<le> ?n"
    by arith
  then have amount: "unat (code_length c - of_nat i) = ?n - i"
    by (rule shift_amount_eq)
  then have le: "unat (code_length c - of_nat i) \<le> 32"
    using assms(1) by simp
  have reloc: "word_of_place_values
           (map (\<lambda>pv. (pv + (code_length c - of_nat i)) mod code_length c)
              (bit_place_values_of aligned ?n)) =
         rotate_left ?n aligned ((?n - i) mod ?n)" for aligned
    using relocate_syndrome [OF assms(1) le, of aligned]
    by (simp only: amount rotate_left_mod)
  show ?thesis
    unfolding decode_word_def Let_def scan
    by (simp only: reloc align_shift_eq [OF assms(1,2)] prod.case simp_thms if_False)
qed

lemma decode_word_fallback:
  assumes "min_distance c \<noteq> 0"
    and "\<forall>j<length (syndromes_1 c w).
             \<not> weight_count (unat (code_length c)) (syndromes_1 c w ! j)
                  \<le> (unat (min_distance c) - 1) div 2"
  shows "decode_word c w =
            (case nearest_neighbor c w of Inl e \<Rightarrow> Inl e
             | Inr decoded_word \<Rightarrow> Inr (decoded_word, False))"
proof -
  let ?n = "unat (code_length c)"
  let ?syns = "syndromes_1 c w"
  let ?bound = "(min_distance c - 1) div 2"
  have "fst (scan_weight c ?syns ?bound (False, 0)) = False"
    using assms(2) by (intro scan_weight_none) (simp_all add: light_iff [OF assms(1)])
  then obtain k where scan: "scan_weight c ?syns ?bound (False, 0) = (False, k)"
    by (cases "scan_weight c ?syns ?bound (False, 0)") simp
  show ?thesis
    unfolding decode_word_def Let_def scan
    by (simp only: prod.case simp_thms if_True)
qed

subsection \<open>Codes built by the constructor\<close>

lemma weight_count_pos:
  assumes "w \<noteq> 0" "unat w < 2 ^ n"
  shows "0 < weight_count n w"
proof -
  obtain i where i: "bit w i"
    using assms(1) by (auto simp: bit_eq_iff)
  have "take_bit n (unat w) = unat w"
    using assms(2) by (simp add: take_bit_nat_eq_self_iff)
  moreover have "bit (unat w) i"
    using i by (simp add: bit_unsigned_iff)
  ultimately have "bit (take_bit n (unat w)) i"
    by simp
  then have "i < n"
    by (simp add: bit_take_bit_iff)
  then have "i \<in> set (filter (\<lambda>i. bit w i) [0..<n])"
    using i by simp
  then show ?thesis
    unfolding weight_count_def by (rule length_pos_if_in_set)
qed

lemma make_min_distance_nonzero:
  assumes "\<forall>w\<in>set cws. 0 < w \<longrightarrow> hamming_distance c 0 w \<noteq> 0"
  shows "make_min_distance c cws \<noteq> 0"
proof -
  have "fold (\<lambda>word distance.
             if word > 0
             then (if hamming_distance c 0 word < distance
                   then hamming_distance c 0 word else distance)
             else distance) cws d \<noteq> 0" if "d \<noteq> 0" for d
    using assms that by (induction cws arbitrary: d) simp_all
  moreover have "UINT_MAX \<noteq> 0"
    by (simp add: UINT_MAX_def)
  ultimately show ?thesis
    unfolding make_min_distance_def Let_def by blast
qed

lemma find_power_2_overflow:
  assumes "32 \<le> unat n"
  shows "find_power 2 n = 0"
  using assms by (simp add: find_power_eq exp_eq_zero_iff)

text \<open>
  The minimum distance the constructor stores is never zero: a nonzero code word has a set
  bit below the code length, and without nonzero code words the stored value is
  \<open>UINT_MAX\<close>.
\<close>

lemma min_distance_new_CyclicCode: "min_distance (new_CyclicCode G H n) \<noteq> 0"
proof -
  let ?c0 = "\<lparr>generator = G, parity_check = H, code_words = [], code_length = n,
     min_distance = 0\<rparr>"
  have md: "min_distance (new_CyclicCode G H n) = make_min_distance ?c0 (make_code_words ?c0)"
    by (simp add: new_CyclicCode_def Let_def)
  have "hamming_distance ?c0 0 w \<noteq> 0" if "w \<in> set (make_code_words ?c0)" "0 < w" for w
  proof (cases "unat n < 32")
    case True
    then have "unat (code_length ?c0) < 32" by simp
    from make_code_words_facts(1) [OF this] that(1)
    have "unat w < 2 ^ unat n" by simp
    moreover have "w \<noteq> 0" using that(2) by auto
    ultimately have "0 < weight_count (unat n) w"
      by (intro weight_count_pos)
    then have "unat (hamming_distance ?c0 0 w) \<noteq> 0"
      by (simp add: unat_hamming_distance)
    then show ?thesis by auto
  next
    case False
    then have "find_power 2 (code_length ?c0) = 0"
      by (simp add: find_power_2_overflow)
    then have "make_code_words ?c0 = []"
      by (simp add: make_code_words_def)
    then show ?thesis using that(1) by simp
  qed
  then show ?thesis
    unfolding md by (intro make_min_distance_nonzero) blast
qed

text \<open>
  \<open>decode_word\<close> of \<open>cyclic_codes.h\<close> throws nothing on a code built by the constructor:
  the nearest-neighbour branch reads \<open>at(0)\<close> of a coset that is empty only when the
  codebook is, and then the stored minimum distance is \<open>UINT_MAX\<close>, the bound is
  \<open>2 ^ 31 - 1\<close> and the first syndrome is accepted.
\<close>

lemma nearest_neighbor_returns:
  assumes "code_words c \<noteq> []"
  shows "\<exists>r. nearest_neighbor c w = Inr r"
  using assms by (simp add: nearest_neighbor_def Let_def split: prod.splits)

lemma decode_word_returns:
  assumes "code_words c \<noteq> [] \<or> min_distance c = UINT_MAX"
  shows "\<exists>r. decode_word c w = Inr r"
proof (cases "code_words c = []")
  case True
  then have md: "min_distance c = UINT_MAX" using assms by simp
  let ?syns = "syndromes_1 c w"
  let ?bound = "(min_distance c - 1) div 2"
  have "unat ?bound = 2147483647"
    unfolding md by (simp add: UINT_MAX_def unat_div unsigned_minus_1_eq_mask
        mask_eq_exp_minus_1 unat_sub word_le_nat_alt)
  moreover have "unat (hamming_distance c 0 (?syns ! 0)) \<le> 32"
    by (simp add: unat_hamming_distance weight_count_le)
  ultimately have "hamming_distance c 0 (?syns ! 0) \<le> ?bound"
    by (simp add: word_le_nat_alt)
  moreover have "0 < length ?syns"
    by (simp add: length_syndromes_1)
  ultimately have scan: "scan_weight c ?syns ?bound (False, 0) = (True, 0)"
    by (intro scan_weight_first) simp_all
  show ?thesis
    unfolding decode_word_def Let_def scan by simp
next
  case False
  then obtain r where r: "nearest_neighbor c w = Inr r"
    using nearest_neighbor_returns by blast
  obtain found which where
    scan: "scan_weight c (syndromes_1 c w) ((min_distance c - 1) div 2) (False, 0) = (found, which)"
    by (cases "scan_weight c (syndromes_1 c w) ((min_distance c - 1) div 2) (False, 0)")
  show ?thesis
    unfolding decode_word_def Let_def scan using r by (cases found) auto
qed

lemma decode_word_new_CyclicCode_returns:
  "\<exists>r. decode_word (new_CyclicCode G H n) w = Inr r"
proof -
  let ?c0 = "\<lparr>generator = G, parity_check = H, code_words = [], code_length = n,
     min_distance = 0\<rparr>"
  have "min_distance (new_CyclicCode G H n) = UINT_MAX" if "code_words (new_CyclicCode G H n) = []"
    using that by (simp add: new_CyclicCode_def Let_def make_min_distance_def)
  then show ?thesis
    by (intro decode_word_returns) blast
qed

text \<open>
  For every code length below 32 the codebook of a constructed code holds the zero word,
  and \<open>nearest_neighbor\<close> returns the first code word at the least Hamming distance from
  the received word.
\<close>

lemma code_words_new_CyclicCode2:
  "code_words (new_CyclicCode2 G H n) =
   make_code_words \<lparr>generator = G, parity_check = H, code_words = [], code_length = n,
     min_distance = 0, max_burst_length = 0\<rparr>"
  by (simp add: new_CyclicCode2_def Let_def)

lemma zero_in_code_words_new_CyclicCode2:
  assumes "unat n < 32"
  shows "0 \<in> set (code_words (new_CyclicCode2 G H n))"
proof -
  let ?c0 = "\<lparr>generator = G, parity_check = H, code_words = [], code_length = n,
     min_distance = 0, max_burst_length = 0\<rparr>"
  have "unat (code_length ?c0) < 32"
    using assms by simp
  from make_code_words_facts(1) [OF this] show ?thesis
    by (simp add: code_words_new_CyclicCode2 is_code_word_zero)
qed

lemma nearest_neighbor_new_CyclicCode2:
  assumes "unat n < 32"
  shows "\<exists>i<length (code_words (new_CyclicCode2 G H n)).
           nearest_neighbor (new_CyclicCode2 G H n) w =
             Inr (code_words (new_CyclicCode2 G H n) ! i) \<and>
           (\<forall>j<length (code_words (new_CyclicCode2 G H n)).
              weight_count (unat n) (w XOR code_words (new_CyclicCode2 G H n) ! i)
                \<le> weight_count (unat n) (w XOR code_words (new_CyclicCode2 G H n) ! j)) \<and>
           (\<forall>j<i. weight_count (unat n) (w XOR code_words (new_CyclicCode2 G H n) ! i)
                     < weight_count (unat n) (w XOR code_words (new_CyclicCode2 G H n) ! j))"
proof -
  let ?c = "new_CyclicCode2 G H n"
  have "code_words ?c \<noteq> []"
    using zero_in_code_words_new_CyclicCode2 [OF assms, of G H] by auto
  from nearest_neighbor_first_least [OF this, of w] show ?thesis
    by (simp add: word_le_nat_alt word_less_nat_alt unat_hamming_distance)
qed


lemma empty_codebook_min_distance:
  assumes "code_words (new_CyclicCode G H n) = []"
  shows "min_distance (new_CyclicCode G H n) = UINT_MAX"
  using assms by (simp add: new_CyclicCode_def Let_def make_min_distance_def)

lemma fallback_codebook_nonempty:
  assumes "\<forall>j<length (syndromes_1 (new_CyclicCode G H n) w).
             \<not> weight_count (unat n) (syndromes_1 (new_CyclicCode G H n) w ! j)
                  \<le> (unat (min_distance (new_CyclicCode G H n)) - 1) div 2"
  shows "code_words (new_CyclicCode G H n) \<noteq> []"
proof
  let ?c = "new_CyclicCode G H n"
  assume "code_words ?c = []"
  then have "unat (min_distance ?c) = 4294967295"
    by (simp add: empty_codebook_min_distance unat_UINT_MAX)
  moreover have "weight_count (unat n) (syndromes_1 ?c w ! 0) \<le> 32"
    by (rule weight_count_le)
  ultimately have "weight_count (unat n) (syndromes_1 ?c w ! 0)
      \<le> (unat (min_distance ?c) - 1) div 2"
    by simp
  moreover have "0 < length (syndromes_1 ?c w)"
    by (simp add: length_syndromes_1)
  ultimately show False
    using assms by blast
qed

text \<open>
  Claim C3. For every code built by the constructor with a code length \<open>n\<close> of at most 32
  and at most \<open>n\<close> parity rows, and every received word: \<open>decode_word\<close> of
  \<open>cyclic_codes.h\<close> accepts the first syndrome, in index order, whose Hamming weight is at
  most \<open>(d_min - 1) div 2\<close>. When that is the syndrome at index \<open>i\<close>, it returns the
  received word XOR the syndrome shifted left by \<open>n - (number of parity rows)\<close> and rotated
  left by \<open>(n - i) mod n\<close> places (and prints its diagnostics when the result fails the
  parity checks). When no syndrome is that light, it returns what nearest-neighbour
  decoding gives: a code word at the least Hamming distance from the received word, the
  first such word of the codebook.
\<close>

theorem weight_decode:
  assumes "c = new_CyclicCode G H n"
    and "unat n \<le> 32"
    and "length H \<le> unat n"
  shows "(i < length (syndromes_1 c w) \<and>
          weight_count (unat n) (syndromes_1 c w ! i) \<le> (unat (min_distance c) - 1) div 2 \<and>
          (\<forall>j<i. \<not> weight_count (unat n) (syndromes_1 c w ! j)
                     \<le> (unat (min_distance c) - 1) div 2) \<longrightarrow>
          decode_word c w =
            Inr (w XOR rotate_left (unat n)
                         (push_bit (unat n - length H) (syndromes_1 c w ! i))
                         ((unat n - i) mod unat n),
                 \<not> is_code_word c
                     (w XOR rotate_left (unat n)
                         (push_bit (unat n - length H) (syndromes_1 c w ! i))
                         ((unat n - i) mod unat n)))) \<and>
         ((\<forall>j<length (syndromes_1 c w).
             \<not> weight_count (unat n) (syndromes_1 c w ! j)
                  \<le> (unat (min_distance c) - 1) div 2) \<longrightarrow>
          (\<exists>k<length (code_words c).
             decode_word c w = Inr (code_words c ! k, False) \<and>
             (\<forall>l<length (code_words c).
                weight_count (unat n) (w XOR code_words c ! k)
                  \<le> weight_count (unat n) (w XOR code_words c ! l)) \<and>
             (\<forall>l<k. weight_count (unat n) (w XOR code_words c ! k)
                       < weight_count (unat n) (w XOR code_words c ! l))))"
proof (intro conjI impI)
  have n: "code_length c = n" and H: "parity_check c = H"
    by (simp_all add: assms(1))
  have md: "min_distance c \<noteq> 0"
    unfolding assms(1) by (rule min_distance_new_CyclicCode)
  have wf: "unat (code_length c) \<le> 32" "length (parity_check c) \<le> unat (code_length c)"
    using assms(2,3) by (simp_all add: n H)
  {
    assume h: "i < length (syndromes_1 c w) \<and>
          weight_count (unat n) (syndromes_1 c w ! i) \<le> (unat (min_distance c) - 1) div 2 \<and>
          (\<forall>j<i. \<not> weight_count (unat n) (syndromes_1 c w ! j)
                     \<le> (unat (min_distance c) - 1) div 2)"
    then have h1: "i < length (syndromes_1 c w)"
      and h2: "weight_count (unat (code_length c)) (syndromes_1 c w ! i)
            \<le> (unat (min_distance c) - 1) div 2"
      and h3: "\<forall>j<i. \<not> weight_count (unat (code_length c)) (syndromes_1 c w ! j)
                     \<le> (unat (min_distance c) - 1) div 2"
      unfolding n by blast+
    from decode_word_accept [OF wf md h1 h2 h3]
    show "decode_word c w =
            Inr (w XOR rotate_left (unat n)
                         (push_bit (unat n - length H) (syndromes_1 c w ! i))
                         ((unat n - i) mod unat n),
                 \<not> is_code_word c
                     (w XOR rotate_left (unat n)
                         (push_bit (unat n - length H) (syndromes_1 c w ! i))
                         ((unat n - i) mod unat n)))"
      by (simp only: n H)
  }
  {
    assume h: "\<forall>j<length (syndromes_1 c w).
             \<not> weight_count (unat n) (syndromes_1 c w ! j)
                  \<le> (unat (min_distance c) - 1) div 2"
    then have fb: "decode_word c w =
            (case nearest_neighbor c w of Inl e \<Rightarrow> Inl e
             | Inr decoded_word \<Rightarrow> Inr (decoded_word, False))"
      using md by (intro decode_word_fallback) (simp_all add: n)
    have "code_words c \<noteq> []"
      using h unfolding assms(1) by (rule fallback_codebook_nonempty)
    from nearest_neighbor_first_least [OF this, of w]
    obtain k where k: "k < length (code_words c)"
      "nearest_neighbor c w = Inr (code_words c ! k)"
      "\<forall>l<length (code_words c).
         hamming_distance c w (code_words c ! k) \<le> hamming_distance c w (code_words c ! l)"
      "\<forall>l<k. hamming_distance c w (code_words c ! k) < hamming_distance c w (code_words c ! l)"
      by blast
    show "\<exists>k<length (code_words c).
             decode_word c w = Inr (code_words c ! k, False) \<and>
             (\<forall>l<length (code_words c).
                weight_count (unat n) (w XOR code_words c ! k)
                  \<le> weight_count (unat n) (w XOR code_words c ! l)) \<and>
             (\<forall>l<k. weight_count (unat n) (w XOR code_words c ! k)
                       < weight_count (unat n) (w XOR code_words c ! l))"
    proof (intro exI [of _ k] conjI)
      show "k < length (code_words c)" by (rule k(1))
      show "decode_word c w = Inr (code_words c ! k, False)"
        by (simp add: fb k(2))
      show "\<forall>l<length (code_words c).
                weight_count (unat n) (w XOR code_words c ! k)
                  \<le> weight_count (unat n) (w XOR code_words c ! l)"
        using k(3) by (simp add: word_le_nat_alt unat_hamming_distance n)
      show "\<forall>l<k. weight_count (unat n) (w XOR code_words c ! k)
                       < weight_count (unat n) (w XOR code_words c ! l)"
        using k(4) by (simp add: word_less_nat_alt unat_hamming_distance n)
    qed
  }
qed

text \<open>
  The Hamming code of length 7 corrects the received word \<open>0100011\<close> to \<open>0100111\<close> at the
  fifth syndrome, after four syndromes of weight 2 or 3. On the repetition code of length
  5 the received word \<open>01011\<close> has no syndrome of weight at most 2, and the nearest code
  word is the second one of the codebook, \<open>11111\<close>.
\<close>

lemma weight_example_syndromes:
  "syndromes_1 \<lparr>generator = [88, 44, 22, 11], parity_check = [116, 58, 29],
    code_words = [0, 11, 22, 29, 39, 44, 49, 58, 69, 78, 83, 88, 98, 105, 116, 127],
    code_length = 7, min_distance = 3\<rparr> 35 = [5, 3, 7, 6, 4, 1, 2]"
  by code_simp

lemma weight_example_values:
  "weight_count 7 5 = 2" "weight_count 7 3 = 2" "weight_count 7 7 = 3" "weight_count 7 6 = 2"
  "weight_count 7 4 = 1" "rotate_left 7 64 3 = 4"
  by code_simp+

lemma weight_example_check:
  "is_code_word \<lparr>generator = [88, 44, 22, 11], parity_check = [116, 58, 29],
    code_words = [0, 11, 22, 29, 39, 44, 49, 58, 69, 78, 83, 88, 98, 105, 116, 127],
    code_length = 7, min_distance = 3\<rparr> 39"
  by code_simp

lemma fallback_example_code:
  "new_CyclicCode [31] [24, 12, 6, 3] 5 =
   \<lparr>generator = [31], parity_check = [24, 12, 6, 3], code_words = [0, 31], code_length = 5,
    min_distance = 5\<rparr>"
  by code_simp

lemma fallback_example_syndromes:
  "syndromes_1 \<lparr>generator = [31], parity_check = [24, 12, 6, 3], code_words = [0, 31],
     code_length = 5, min_distance = 5\<rparr> 11 = [14, 13, 11, 7, 15]"
  by code_simp

lemma fallback_example_values:
  "weight_count 5 14 = 3" "weight_count 5 13 = 3" "weight_count 5 11 = 3"
  "weight_count 5 7 = 3" "weight_count 5 15 = 4" "weight_count 5 20 = 2"
  by code_simp+

theorem weight_decode_witness:
  "syndromes_1 (new_CyclicCode [88, 44, 22, 11] [116, 58, 29] 7) 35 = [5, 3, 7, 6, 4, 1, 2] \<and>
   decode_word (new_CyclicCode [88, 44, 22, 11] [116, 58, 29] 7) 35 = Inr (39, False) \<and>
   syndromes_1 (new_CyclicCode [31] [24, 12, 6, 3] 5) 11 = [14, 13, 11, 7, 15] \<and>
   decode_word (new_CyclicCode [31] [24, 12, 6, 3] 5) 11 = Inr (31, False)"
proof (intro conjI)
  let ?c = "new_CyclicCode [88, 44, 22, 11] [116, 58, 29] 7"
  have wf: "unat (7 :: uint) \<le> 32" "length [116 :: uint, 58, 29] \<le> unat (7 :: uint)"
    by simp_all
  show syns: "syndromes_1 ?c 35 = [5, 3, 7, 6, 4, 1, 2]"
    by (simp add: hamming_example_code weight_example_syndromes)
  have light: "4 < length (syndromes_1 ?c 35) \<and>
          weight_count (unat (7 :: uint)) (syndromes_1 ?c 35 ! 4)
            \<le> (unat (min_distance ?c) - 1) div 2 \<and>
          (\<forall>j<4. \<not> weight_count (unat (7 :: uint)) (syndromes_1 ?c 35 ! j)
                     \<le> (unat (min_distance ?c) - 1) div 2)"
  proof -
    have "\<not> weight_count 7 ([5, 3, 7, 6, 4, 1, 2] ! j) \<le> 1" if "j < 4" for j
    proof -
      from that consider "j = 0" | "j = 1" | "j = 2" | "j = 3"
        by arith
      then show ?thesis
        by cases (simp_all add: weight_example_values)
    qed
    then show ?thesis
      unfolding syns by (simp add: hamming_example_code weight_example_values)
  qed
  from weight_decode [of ?c "[88, 44, 22, 11]" "[116, 58, 29]" 7 4 35, OF refl wf,
      THEN conjunct1, THEN mp, OF light]
  show "decode_word ?c 35 = Inr (39, False)"
    unfolding syns
    by (simp add: hamming_example_code weight_example_values weight_example_check)
next
  let ?c = "new_CyclicCode [31] [24, 12, 6, 3] 5"
  have wf: "unat (5 :: uint) \<le> 32" "length [24 :: uint, 12, 6, 3] \<le> unat (5 :: uint)"
    by simp_all
  have cw: "code_words ?c = [0, 31]"
    by (simp add: fallback_example_code)
  show syns: "syndromes_1 ?c 11 = [14, 13, 11, 7, 15]"
    by (simp add: fallback_example_code fallback_example_syndromes)
  have heavy: "\<forall>j<length (syndromes_1 ?c 11).
             \<not> weight_count (unat (5 :: uint)) (syndromes_1 ?c 11 ! j)
                  \<le> (unat (min_distance ?c) - 1) div 2"
  proof -
    have "\<not> weight_count 5 ([14, 13, 11, 7, 15] ! j) \<le> 2" if "j < 5" for j
    proof -
      from that consider "j = 0" | "j = 1" | "j = 2" | "j = 3" | "j = 4"
        by arith
      then show ?thesis
        by cases (simp_all add: fallback_example_values)
    qed
    then show ?thesis
      unfolding syns by (simp add: fallback_example_code)
  qed
  from weight_decode [of ?c "[31]" "[24, 12, 6, 3]" 5 0 11, OF refl wf,
      THEN conjunct2, THEN mp, OF heavy]
  obtain k where k: "k < length (code_words ?c)"
    "decode_word ?c 11 = Inr (code_words ?c ! k, False)"
    "\<forall>l<length (code_words ?c).
        weight_count (unat (5 :: uint)) (11 XOR code_words ?c ! k)
          \<le> weight_count (unat (5 :: uint)) (11 XOR code_words ?c ! l)"
    by blast
  have "k \<noteq> 0"
  proof
    assume "k = 0"
    have "(1 :: nat) < length (code_words ?c)"
      unfolding cw by simp
    with k(3) \<open>k = 0\<close>
    have "weight_count (unat (5 :: uint)) (11 XOR code_words ?c ! 0)
          \<le> weight_count (unat (5 :: uint)) (11 XOR code_words ?c ! 1)"
      by blast
    then show False
      unfolding cw by (simp add: fallback_example_values)
  qed
  with k(1) have "k = 1"
    unfolding cw by simp
  with k(2) show "decode_word ?c 11 = Inr (31, False)"
    unfolding cw by simp
qed

section \<open>The parity transpose and the syndrome\<close>

lemma bit_add_power:
  fixes x :: uint
  assumes "\<not> bit x m" "m < 32"
  shows "bit (x + 2 ^ m) q \<longleftrightarrow> bit x q \<or> q = m"
proof -
  have "x + 2 ^ m = x OR 2 ^ m"
    by (rule disjunctive_add) (use assms(1) in \<open>auto simp: bit_exp_iff\<close>)
  then show ?thesis
    using assms(2) by (auto simp: bit_or_iff bit_exp_iff)
qed

lemma transpose_row_bit:
  fixes h P :: uint
  assumes "distinct cols" "\<forall>col\<in>set cols. col < n" "length mt = n" "i < n"
  shows "fold (\<lambda>col mt. if bit h col
                        then mt[n - col - 1 := mt ! (n - col - 1) + P] else mt)
           cols mt ! i =
         (if n - 1 - i \<in> set cols \<and> bit h (n - 1 - i) then mt ! i + P else mt ! i)"
  using assms(1-3)
proof (induction cols arbitrary: mt)
  case Nil
  show ?case by simp
next
  case (Cons col cols)
  let ?step = "\<lambda>col mt. if bit h col
                        then mt[n - col - 1 := mt ! (n - col - 1) + P] else mt"
  have col: "col < n" "col \<notin> set cols" "distinct cols" "\<forall>col\<in>set cols. col < n"
    using Cons.prems by simp_all
  have idx: "i = n - col - 1 \<longleftrightarrow> col = n - 1 - i"
    using col(1) assms(4) by auto
  define mt' where "mt' = ?step col mt"
  have len: "length mt' = n"
    using Cons.prems(3) by (simp add: mt'_def)
  have unfold: "fold ?step (col # cols) mt = fold ?step cols mt'"
    by (simp add: mt'_def)
  have IH: "fold ?step cols mt' ! i =
         (if n - 1 - i \<in> set cols \<and> bit h (n - 1 - i) then mt' ! i + P else mt' ! i)"
    using col(3,4) len by (rule Cons.IH)
  have here: "mt' ! i = (if col = n - 1 - i \<and> bit h col then mt ! i + P else mt ! i)"
  proof (cases "bit h col")
    case True
    then have "mt' = mt[n - col - 1 := mt ! (n - col - 1) + P]"
      by (simp add: mt'_def)
    moreover have "n - col - 1 < length mt"
      using Cons.prems(3) col(1) by simp
    ultimately have "mt' ! i = (if i = n - col - 1 then mt ! (n - col - 1) + P else mt ! i)"
      by (simp add: nth_list_update)
    then show ?thesis
      using True idx by auto
  next
    case False
    then show ?thesis by (simp add: mt'_def)
  qed
  show ?case
  proof (cases "col = n - 1 - i")
    case True
    then have notin: "n - 1 - i \<notin> set cols" using col(2) by simp
    have "fold ?step cols mt' ! i = mt' ! i"
      using IH notin by simp
    then show ?thesis
      unfolding unfold using here True by simp
  next
    case False
    have "mt' ! i = mt ! i"
      using here False by simp
    then show ?thesis
      unfolding unfold using IH False by simp
  qed
qed

lemma transpose_row:
  fixes h P :: uint
  assumes "distinct cols" "\<forall>col\<in>set cols. col < n" "length mt = n" "i < n"
  shows "fold (\<lambda>col mt. if drop_bit col h AND 1 = 1
                        then mt[n - col - 1 := mt ! (n - col - 1) + P] else mt)
           cols mt ! i =
         (if n - 1 - i \<in> set cols \<and> bit h (n - 1 - i) then mt ! i + P else mt ! i)"
  unfolding test_bit_conv using assms by (rule transpose_row_bit)

lemma transpose_rows:
  fixes matrix :: "uint list"
  assumes "length matrix \<le> 32" "k \<le> length matrix" "i < n"
  shows "length (fold (\<lambda>old_row matrix_transpose.
                 fold (\<lambda>col mt. if drop_bit col (matrix ! old_row) AND 1 = 1
                        then mt[n - col - 1 := mt ! (n - col - 1) +
                               find_power 2 (of_nat (length matrix) - of_nat old_row - 1)]
                        else mt)
                      (rev [0..<n]) matrix_transpose)
              [0..<k] (replicate n 0)) = n \<and>
         (bit (fold (\<lambda>old_row matrix_transpose.
                 fold (\<lambda>col mt. if drop_bit col (matrix ! old_row) AND 1 = 1
                        then mt[n - col - 1 := mt ! (n - col - 1) +
                               find_power 2 (of_nat (length matrix) - of_nat old_row - 1)]
                        else mt)
                      (rev [0..<n]) matrix_transpose)
              [0..<k] (replicate n 0) ! i) q \<longleftrightarrow>
          q < length matrix \<and> length matrix - 1 - q < k \<and>
          bit (matrix ! (length matrix - 1 - q)) (n - 1 - i))"
  using assms(2)
proof (induction k arbitrary: q)
  case 0
  show ?case using assms(3) by simp
next
  case (Suc k)
  let ?r = "length matrix"
  let ?inner = "\<lambda>old_row matrix_transpose.
                 fold (\<lambda>col mt. if drop_bit col (matrix ! old_row) AND 1 = 1
                        then mt[n - col - 1 := mt ! (n - col - 1) +
                               find_power 2 (of_nat ?r - of_nat old_row - 1)]
                        else mt)
                      (rev [0..<n]) matrix_transpose"
  let ?mt = "fold ?inner [0..<k] (replicate n 0)"
  have k: "k < ?r" using Suc.prems by simp
  have IH: "length ?mt = n"
    "bit (?mt ! i) q \<longleftrightarrow> q < ?r \<and> ?r - 1 - q < k \<and> bit (matrix ! (?r - 1 - q)) (n - 1 - i)" for q
    using Suc.IH k by simp_all
  have e: "(of_nat ?r :: uint) - of_nat k - 1 = of_nat (?r - 1 - k)"
    using k by simp
  have lt: "?r - 1 - k < 32" using assms(1) k by simp
  then have P: "find_power 2 ((of_nat ?r :: uint) - of_nat k - 1) = 2 ^ (?r - 1 - k)"
    unfolding e by (simp add: find_power_eq unat_of_nat)
  have step: "fold ?inner [0..<Suc k] (replicate n 0) = ?inner k ?mt"
    by simp
  have len: "length (?inner k ?mt) = n"
    using IH(1) by (simp add: inner_transpose_length)
  have nb: "\<not> bit (?mt ! i) (?r - 1 - k)"
    using k by (simp add: IH(2))
  have "?inner k ?mt ! i =
        (if n - 1 - i \<in> set (rev [0..<n]) \<and> bit (matrix ! k) (n - 1 - i)
         then ?mt ! i + 2 ^ (?r - 1 - k) else ?mt ! i)"
    unfolding P by (rule transpose_row) (use IH(1) assms(3) in simp_all)
  then have val: "?inner k ?mt ! i =
        (if bit (matrix ! k) (n - 1 - i) then ?mt ! i + 2 ^ (?r - 1 - k) else ?mt ! i)"
    using assms(3) by simp
  have "bit (?inner k ?mt ! i) q \<longleftrightarrow>
          q < ?r \<and> ?r - 1 - q < Suc k \<and> bit (matrix ! (?r - 1 - q)) (n - 1 - i)"
  proof (cases "bit (matrix ! k) (n - 1 - i)")
    case True
    have "bit (?inner k ?mt ! i) q \<longleftrightarrow> bit (?mt ! i) q \<or> q = ?r - 1 - k"
      using True val bit_add_power [OF nb lt] by simp
    also have "\<dots> \<longleftrightarrow> q < ?r \<and> ?r - 1 - q < Suc k \<and> bit (matrix ! (?r - 1 - q)) (n - 1 - i)"
    proof (cases "q = ?r - 1 - k")
      case q: True
      then have "?r - 1 - q = k" using k by simp
      then show ?thesis using q True k by simp
    next
      case q: False
      then have "?r - 1 - q < Suc k \<longleftrightarrow> ?r - 1 - q < k" if "q < ?r"
        using that k by auto
      then show ?thesis using q by (auto simp: IH(2))
    qed
    finally show ?thesis .
  next
    case False
    have "?r - 1 - q < Suc k \<and> bit (matrix ! (?r - 1 - q)) (n - 1 - i) \<longleftrightarrow>
          ?r - 1 - q < k \<and> bit (matrix ! (?r - 1 - q)) (n - 1 - i)"
      using False by (auto simp: less_Suc_eq)
    then show ?thesis
      using False val by (simp add: IH(2))
  qed
  then show ?case
    unfolding step using len by simp
qed

lemma bit_get_transpose:
  assumes "length matrix \<le> 32" "i < unat n"
  shows "bit (get_transpose matrix n ! i) q \<longleftrightarrow>
         q < length matrix \<and> bit (matrix ! (length matrix - 1 - q)) (unat n - 1 - i)"
proof -
  have "length matrix - 1 - q < length matrix" if "q < length matrix"
    using that by simp
  then show ?thesis
    unfolding get_transpose_def Let_def
    using transpose_rows [OF assms(1) order_refl assms(2), of q] by auto
qed


lemma bit_xor_fold:
  "bit (fold (\<lambda>pv (s :: uint). if P pv then s XOR f pv else s) ps acc) q \<longleftrightarrow>
   (bit acc q \<noteq> odd (length (filter (\<lambda>pv. P pv \<and> bit (f pv) q) ps)))"
  by (induction ps arbitrary: acc) (auto simp: bit_xor_iff)

lemma bit_syndrome_of_transpose:
  assumes "length (parity_check c) \<le> 32"
  shows "bit (syndrome_of (get_transpose (parity_check c) (code_length c)) w) q \<longleftrightarrow>
         q < length (parity_check c) \<and>
         dot_product c w (length (parity_check c) - 1 - q) \<noteq> 0"
proof -
  let ?n = "unat (code_length c)" and ?H = "parity_check c"
  let ?T = "get_transpose ?H (code_length c)"
  have T: "length ?T = ?n"
    by (rule length_get_transpose)
  have "filter (\<lambda>pv. bit w pv \<and> bit (?T ! (?n - 1 - pv)) q) [0..<?n] =
        filter (\<lambda>pv. q < length ?H \<and> bit w pv \<and> bit (?H ! (length ?H - 1 - q)) pv) [0..<?n]"
  proof (rule filter_cong [OF refl])
    fix pv assume "pv \<in> set [0..<?n]"
    then have pv: "pv < ?n" by simp
    then have "?n - 1 - pv < ?n" "?n - 1 - (?n - 1 - pv) = pv" by simp_all
    then show "(bit w pv \<and> bit (?T ! (?n - 1 - pv)) q) =
               (q < length ?H \<and> bit w pv \<and> bit (?H ! (length ?H - 1 - q)) pv)"
      using bit_get_transpose [OF assms, of "?n - 1 - pv" "code_length c" q] by auto
  qed
  then have "bit (syndrome_of ?T w) q \<longleftrightarrow>
        odd (length (filter (\<lambda>pv. q < length ?H \<and> bit w pv \<and> bit (?H ! (length ?H - 1 - q)) pv)
                       [0..<?n]))"
    unfolding syndrome_of_def test_bit_conv T
    by (simp only: bit_xor_fold) simp
  also have "\<dots> \<longleftrightarrow> q < length ?H \<and> dot_product c w (length ?H - 1 - q) \<noteq> 0"
    by (cases "q < length ?H") (simp_all add: dot_product_parity)
  finally show ?thesis .
qed

lemma syndrome_of_code_word:
  assumes "length (parity_check c) \<le> 32" "is_code_word c w"
  shows "syndrome_of (get_transpose (parity_check c) (code_length c)) w = 0"
proof (rule bit_eqI)
  fix q
  have "dot_product c w (length (parity_check c) - 1 - q) = 0" if "q < length (parity_check c)"
    using assms(2) that by (simp add: is_code_word_iff)
  then show "bit (syndrome_of (get_transpose (parity_check c) (code_length c)) w) q =
             bit (0 :: uint) q"
    by (auto simp: bit_syndrome_of_transpose [OF assms(1)])
qed

lemma syndrome_bits_low:
  assumes "length (parity_check c) \<le> 32"
    and "bit (syndrome_of (get_transpose (parity_check c) (code_length c)) w) q"
  shows "q < length (parity_check c)"
  using assms by (simp add: bit_syndrome_of_transpose)


section \<open>The burst decoder of \<open>cyclic_codes_2.h\<close>\<close>

lemma rotate_right_bits_low: "bit (rotate_right n v a) q \<Longrightarrow> q < n"
  by (simp add: bit_rotate_right)

lemma rotate_right_0:
  assumes "\<And>q. bit v q \<Longrightarrow> q < n"
  shows "rotate_right n v 0 = v"
  by (rule bit_eqI) (use assms in \<open>auto simp: bit_rotate_right dest: bit_imp_le_length\<close>)

lemma rotate_right_Suc:
  assumes "n \<le> 32"
  shows "rotate_right n (rotate_right n v a) 1 = rotate_right n v (Suc a)"
proof (rule bit_eqI)
  fix q
  show "bit (rotate_right n (rotate_right n v a) 1) q = bit (rotate_right n v (Suc a)) q"
  proof (cases "q < n")
    case True
    then have m: "(q + 1) mod n < n" by simp
    then have m32: "(q + 1) mod n < 32" using assms by simp
    have "((q + 1) mod n + a) mod n = (q + Suc a) mod n"
      by (simp add: mod_add_left_eq)
    then show ?thesis
      using True m m32 by (simp add: bit_rotate_right)
  next
    case False
    then show ?thesis by (simp add: bit_rotate_right)
  qed
qed

lemma rotate_step:
  fixes nw v :: uint
  assumes "nw \<noteq> 0" "unat nw \<le> 32" "\<And>q. bit v q \<Longrightarrow> q < unat nw"
  shows "(if v AND 1 = 1 then drop_bit 1 v + find_power 2 (nw - 1) else drop_bit 1 v) =
         rotate_right (unat nw) v 1"
proof -
  let ?n = "unat nw"
  have n: "0 < ?n" using assms(1) by (simp add: unat_gt_0)
  have fp: "find_power 2 (nw - 1) = (2 :: uint) ^ (?n - 1)"
    using assms(1) by (simp add: find_power_eq unat_minus_one)
  have t: "(v AND 1 = 1) = bit v 0"
    using test_bit_conv [of 0 v] by simp
  have top: "\<not> bit (drop_bit 1 v) (?n - 1)"
  proof
    assume "bit (drop_bit 1 v) (?n - 1)"
    then have "bit v ?n" using n by (simp add: bit_drop_bit_eq)
    then show False using assms(3) [of ?n] by simp
  qed
  have lt: "?n - 1 < 32" using assms(2) n by simp
  show ?thesis
  proof (rule bit_eqI)
    fix q
    have rr: "bit (rotate_right ?n v 1) q \<longleftrightarrow> q < ?n \<and> bit v ((q + 1) mod ?n)"
      using assms(2) by (auto simp: bit_rotate_right)
    have dr: "bit (drop_bit 1 v) q \<longleftrightarrow> bit v (q + 1)"
      by (simp add: bit_drop_bit_eq)
    have wrap: "(q + 1) mod ?n = (if q = ?n - 1 then 0 else q + 1)" if "q < ?n"
      using that n by (auto simp: mod_Suc)
    show "bit (if v AND 1 = 1 then drop_bit 1 v + find_power 2 (nw - 1) else drop_bit 1 v) q =
          bit (rotate_right ?n v 1) q"
    proof (cases "bit v 0")
      case True
      have "bit (drop_bit 1 v + 2 ^ (?n - 1)) q \<longleftrightarrow> bit v (q + 1) \<or> q = ?n - 1"
        using bit_add_power [OF top lt, of q] dr by simp
      also have "\<dots> \<longleftrightarrow> q < ?n \<and> bit v ((q + 1) mod ?n)"
      proof (cases "q < ?n")
        case q: True
        show ?thesis
        proof (cases "q = ?n - 1")
          case e: True
          then show ?thesis using q True wrap [OF q] by simp
        next
          case e: False
          then show ?thesis using q wrap [OF q] by simp
        qed
      next
        case q: False
        then have "\<not> bit v (q + 1)" "q \<noteq> ?n - 1"
          using assms(3) [of "q + 1"] n by auto
        then show ?thesis using q by simp
      qed
      finally show ?thesis
        unfolding t fp rr using True by simp
    next
      case False
      have "bit v (q + 1) \<longleftrightarrow> q < ?n \<and> bit v ((q + 1) mod ?n)"
      proof (cases "q < ?n")
        case q: True
        show ?thesis
        proof (cases "q = ?n - 1")
          case e: True
          then have "\<not> bit v (q + 1)" using assms(3) [of "q + 1"] n by auto
          then show ?thesis using q e False wrap [OF q] by simp
        next
          case e: False
          then show ?thesis using q wrap [OF q] by simp
        qed
      next
        case q: False
        then have "\<not> bit v (q + 1)"
          using assms(3) [of "q + 1"] by auto
        then show ?thesis using q by simp
      qed
      then show ?thesis
        unfolding t fp rr using False dr by simp
    qed
  qed
qed

lemma shift_loop_returns:
  assumes "shift_amount \<noteq> UINT_MAX" "unat i \<le> Suc (unat shift_amount)"
  shows "shift_loop c shift_amount i ls =
         Some ((shift_step c ^^ (Suc (unat shift_amount) - unat i)) ls)"
  using assms(2)
proof (induction "Suc (unat shift_amount) - unat i" arbitrary: i ls)
  case 0
  then have "unat shift_amount < unat i" by simp
  then have "\<not> i \<le> shift_amount" by (simp add: word_le_nat_alt)
  then show ?case
    using 0 by (subst shift_loop.simps) simp
next
  case (Suc k)
  from Suc.hyps(2) have le: "unat i \<le> unat shift_amount" by simp
  then have i: "i \<le> shift_amount" by (simp add: word_le_nat_alt)
  have "unat shift_amount < 4294967295"
  proof -
    have "unat shift_amount \<noteq> unat UINT_MAX"
      using assms(1) by (simp add: word_unat_eq_iff)
    moreover have "unat shift_amount < 2 ^ 32"
      using unsigned_less [of shift_amount] by simp
    ultimately show ?thesis by (simp add: unat_UINT_MAX)
  qed
  then have "unat i + 1 < 2 ^ 32" using le by simp
  then have u: "unat (i + 1) = Suc (unat i)"
    by (simp add: unat_add_lem [THEN iffD1])
  have k: "k = Suc (unat shift_amount) - unat (i + 1)"
    using Suc.hyps(2) u by simp
  have "shift_loop c shift_amount (i + 1) (shift_step c ls) =
        Some ((shift_step c ^^ (Suc (unat shift_amount) - unat (i + 1))) (shift_step c ls))"
    using le u by (intro Suc.hyps(1) [OF k]) simp
  also have "(shift_step c ^^ (Suc (unat shift_amount) - unat (i + 1))) (shift_step c ls) =
        (shift_step c ^^ Suc k) ls"
    unfolding k [symmetric] by (simp add: funpow_swap1)
  finally show ?case
    using i Suc.hyps(2) by (subst shift_loop.simps) simp
qed

lemma shift_syndrome_returns:
  assumes "shift_amount \<noteq> UINT_MAX"
  shows "shift_syndrome c aligned shift_amount =
         Some ((shift_step c ^^ unat shift_amount) aligned)"
  unfolding shift_syndrome_def
  using shift_loop_returns [OF assms, of 1 c aligned] by simp

lemma shift_step_eq:
  "shift_step c ls =
   (if ls AND 1 = 1 then drop_bit 1 ls + find_power 2 (code_length c - 1) else drop_bit 1 ls)"
  by (simp add: shift_step_def Let_def)

lemma shift_syndrome_eq:
  assumes "code_length c \<noteq> 0" "unat (code_length c) \<le> 32"
    and "\<And>q. bit aligned q \<Longrightarrow> q < unat (code_length c)"
    and "shift_amount \<noteq> UINT_MAX"
  shows "shift_syndrome c aligned shift_amount =
         Some (rotate_right (unat (code_length c)) aligned (unat shift_amount))"
proof -
  let ?n = "unat (code_length c)"
  have "(shift_step c ^^ a) aligned = rotate_right ?n aligned a" for a
  proof (induction a)
    case 0
    show ?case using rotate_right_0 [OF assms(3)] by simp
  next
    case (Suc a)
    have "(shift_step c ^^ Suc a) aligned = shift_step c (rotate_right ?n aligned a)"
      by (simp add: Suc.IH)
    also have "\<dots> = rotate_right ?n (rotate_right ?n aligned a) 1"
      unfolding shift_step_eq
      by (rule rotate_step [OF assms(1,2)]) (rule rotate_right_bits_low)
    also have "\<dots> = rotate_right ?n aligned (Suc a)"
      by (rule rotate_right_Suc [OF assms(2)])
    finally show ?case .
  qed
  then show ?thesis
    by (simp add: shift_syndrome_returns [OF assms(4)])
qed

lemma word_pred_facts:
  fixes d x :: uint
  assumes "x < d"
  shows "x \<le> d - 1" "d - 1 \<le> d" "d - 1 \<noteq> UINT_MAX"
proof -
  have d: "d \<noteq> 0"
    using assms by (auto simp: word_less_nat_alt)
  then have u: "unat (d - 1) = unat d - 1"
    by (simp add: unat_minus_one)
  have lt: "unat x < unat d"
    using assms by (simp add: word_less_nat_alt)
  show "x \<le> d - 1"
    using lt u by (simp add: word_le_nat_alt)
  show "d - 1 \<le> d"
    using u by (simp add: word_le_nat_alt)
  have "unat d < 2 ^ 32"
    using unsigned_less [of d] by simp
  then have "unat (d - 1) \<noteq> 4294967295"
    using u lt by simp
  moreover have "unat UINT_MAX = 4294967295"
    by (simp add: UINT_MAX_def unsigned_minus_1_eq_mask mask_eq_exp_minus_1)
  ultimately show "d - 1 \<noteq> UINT_MAX"
    by auto
qed

lemma outer_search_pick:
  "\<not> found_syndrome st \<Longrightarrow> which_syndrome st = 0 \<Longrightarrow> d \<noteq> UINT_MAX \<Longrightarrow>
   i < length syns \<Longrightarrow> bls ! i \<le> d \<Longrightarrow>
   (\<And>j. j < length syns \<Longrightarrow> bls ! j \<le> d \<Longrightarrow> bls ! j \<le> bls ! i) \<Longrightarrow>
   (\<And>j. j < i \<Longrightarrow> bls ! j \<noteq> bls ! i) \<Longrightarrow>
   found_syndrome (outer_search syns bls d st) \<and>
   light_syndrome (outer_search syns bls d st) = syns ! i \<and>
   light_syndrome_pos (outer_search syns bls d st) = i"
proof (induction syns bls d st rule: outer_search.induct)
  case (1 syns bls d st)
  let ?st1 = "inner_scan syns bls d st"
  let ?st2 = "?st1\<lparr>which_syndrome := 0, scans := scans ?st1 @ [which_syndrome ?st1]\<rparr>"
  have unfold: "outer_search syns bls d st = outer_search syns bls (d - 1) ?st2"
    using "1.prems"(3) by (subst outer_search.simps) (simp add: Let_def)
  show ?case
  proof (cases "bls ! i = d")
    case True
    have "?st1 = st\<lparr>found_syndrome := True, light_syndrome := syns ! i,
        light_syndrome_pos := i, which_syndrome := i + 1\<rparr>"
      using "1.prems"(1,2,4,7) True by (intro inner_scan_first) simp_all
    then have "found_syndrome ?st2" "light_syndrome ?st2 = syns ! i" "light_syndrome_pos ?st2 = i"
      by simp_all
    then show ?thesis
      unfolding unfold using outer_search_found_keep [of ?st2 syns bls "d - 1"] by simp
  next
    case False
    then have lt: "bls ! i < d"
      using "1.prems"(5) by simp
    have none: "bls ! j \<noteq> d" if "j < length syns" for j
    proof
      assume e: "bls ! j = d"
      then have "bls ! j \<le> bls ! i"
        using "1.prems"(6) [OF that] by simp
      then show False using e lt by simp
    qed
    have "?st1 = st\<lparr>which_syndrome := max (which_syndrome st) (length syns)\<rparr>"
      using "1.prems"(1) none by (intro inner_scan_none) simp_all
    then have st2: "\<not> found_syndrome ?st2" "which_syndrome ?st2 = 0"
      using "1.prems"(1) by simp_all
    have keep: "bls ! j \<le> bls ! i" if "j < length syns" "bls ! j \<le> d - 1" for j
    proof -
      have "bls ! j \<le> d"
        using that(2) word_pred_facts(2) [OF lt] by simp
      then show ?thesis
        using "1.prems"(6) [OF that(1)] by simp
    qed
    show ?thesis
      unfolding unfold
      using st2 word_pred_facts(3) [OF lt] "1.prems"(4) word_pred_facts(1) [OF lt] keep "1.prems"(7)
      by (intro "1.IH" [OF "1.prems"(3) refl]) simp_all
  qed
qed

lemma get_syndromes_nth_is_syndrome:
  assumes "i < length (get_syndromes c w)"
  shows "\<exists>x. get_syndromes c w ! i =
             syndrome_of (get_transpose (parity_check c) (code_length c)) x"
proof -
  let ?cs = "get_cyclic_shifts w (code_length c)"
  let ?rcs = "?cs ! 0 # map (\<lambda>i. ?cs ! i) (rev [1..<length ?cs])"
  let ?T = "get_transpose (parity_check c) (code_length c)"
  have e: "get_syndromes c w = map (syndrome_of ?T) ?rcs"
    by (simp only: get_syndromes_def Let_def)
  then have "i < length ?rcs"
    using assms by simp
  then have "map (syndrome_of ?T) ?rcs ! i = syndrome_of ?T (?rcs ! i)"
    by (rule nth_map)
  then show ?thesis
    unfolding e by blast
qed

text \<open>
  Claim C2. For a code of length between 1 and 32 with at most as many parity rows as the
  length: when the syndrome at index \<open>i\<close> has a burst length of at most
  \<open>max_burst_length\<close>, no syndrome has a larger burst length within that bound, and no
  syndrome before \<open>i\<close> has the same burst length, then the search accepts the syndrome at
  index \<open>i\<close>, and \<open>decode_word\<close> returns the received word XOR that syndrome shifted left
  by \<open>n - (number of parity rows)\<close> and rotated right by \<open>n - i\<close> places within \<open>n\<close> bits.
  The search runs from \<open>max_burst_length\<close> down through 0 whenever the counter does not
  start at \<open>UINT_MAX\<close>; the constructor sets it to 3.
\<close>

theorem burst_decode_success:
  assumes "code_length c \<noteq> 0" and "unat (code_length c) \<le> 32"
    and "length (parity_check c) \<le> unat (code_length c)"
    and "max_burst_length c \<noteq> UINT_MAX"
    and "i < length (get_syndromes c w)"
    and "get_burst_length (get_syndromes c w ! i) (of_nat (length (parity_check c)))
           \<le> max_burst_length c"
    and "\<forall>j<length (get_syndromes c w).
           get_burst_length (get_syndromes c w ! j) (of_nat (length (parity_check c)))
             \<le> max_burst_length c \<longrightarrow>
           get_burst_length (get_syndromes c w ! j) (of_nat (length (parity_check c)))
             \<le> get_burst_length (get_syndromes c w ! i) (of_nat (length (parity_check c)))"
    and "\<forall>j<i. get_burst_length (get_syndromes c w ! j) (of_nat (length (parity_check c)))
             \<noteq> get_burst_length (get_syndromes c w ! i) (of_nat (length (parity_check c)))"
  shows "decode_word_2 c w =
           Some (Inr (w XOR rotate_right (unat (code_length c))
                        (push_bit (unat (code_length c) - length (parity_check c))
                           (get_syndromes c w ! i))
                        (unat (code_length c) - i),
                if is_code_word c
                     (w XOR rotate_right (unat (code_length c))
                        (push_bit (unat (code_length c) - length (parity_check c))
                           (get_syndromes c w ! i))
                        (unat (code_length c) - i))
                then DecodedSuccessfully else FailedToDecode))"
proof -
  let ?n = "unat (code_length c)" and ?r = "length (parity_check c)"
  let ?syns = "get_syndromes c w"
  let ?bls = "map (\<lambda>s. get_burst_length s (of_nat ?r)) ?syns"
  let ?st0 = "\<lparr>found_syndrome = False, light_syndrome = 0, light_syndrome_pos = 0,
            which_syndrome = 0, scans = []\<rparr>"
  let ?T = "get_transpose (parity_check c) (code_length c)"
  have r32: "?r \<le> 32" using assms(2,3) by simp
  have pick: "found_syndrome (outer_search ?syns ?bls (max_burst_length c) ?st0) \<and>
      light_syndrome (outer_search ?syns ?bls (max_burst_length c) ?st0) = ?syns ! i \<and>
      light_syndrome_pos (outer_search ?syns ?bls (max_burst_length c) ?st0) = i"
    using assms(4-8) by (intro outer_search_pick) simp_all
  then have st: "found_syndrome (burst_search c w)" "light_syndrome (burst_search c w) = ?syns ! i"
    "light_syndrome_pos (burst_search c w) = i"
    by (simp_all add: burst_search_def Let_def)
  have "0 < ?n" using assms(1) by (simp add: unat_gt_0)
  then have len: "length ?syns = ?n"
    by (simp add: length_get_syndromes)
  then have "i \<le> ?n" using assms(5) by simp
  then have amount: "unat (code_length c - of_nat i) = ?n - i"
    by (rule shift_amount_eq)
  obtain x where x: "?syns ! i = syndrome_of ?T x"
    using get_syndromes_nth_is_syndrome [OF assms(5)] by blast
  have low: "q < ?n" if "bit (push_bit (?n - ?r) (?syns ! i)) q" for q
  proof -
    from that have "?n - ?r \<le> q" "bit (syndrome_of ?T x) (q - (?n - ?r))"
      unfolding x by (simp_all add: bit_push_bit_iff)
    then have "q - (?n - ?r) < ?r"
      using syndrome_bits_low [OF r32] by blast
    then show ?thesis
      using \<open>?n - ?r \<le> q\<close> assms(3) by simp
  qed
  have "unat (code_length c - of_nat i) \<noteq> unat UINT_MAX"
    using amount assms(2) by (simp add: unat_UINT_MAX)
  then have fin: "code_length c - of_nat i \<noteq> UINT_MAX"
    by auto
  have rot: "shift_syndrome c (push_bit (?n - ?r) (?syns ! i)) (code_length c - of_nat i) =
        Some (rotate_right ?n (push_bit (?n - ?r) (?syns ! i)) (?n - i))"
    using shift_syndrome_eq [OF assms(1,2) low fin] by (simp only: amount)
  show ?thesis
    unfolding decode_word_2_def Let_def
    by (simp only: st get_cyclic_shifts_nonempty rot align_shift_eq [OF assms(2,3)]
        simp_thms if_True if_False option.case)
qed


lemma success_example_code:
  "new_CyclicCode2 [7] [3, 5] 3 =
   \<lparr>generator = [7], parity_check = [3, 5], code_words = [0, 7], code_length = 3,
    min_distance = 3, max_burst_length = 3\<rparr>"
  by code_simp

lemma success_example_syndromes:
  "get_syndromes \<lparr>generator = [7], parity_check = [3, 5], code_words = [0, 7],
     code_length = 3, min_distance = 3, max_burst_length = 3\<rparr> 3 = [1, 2, 3]"
  by code_simp

lemma success_example_bursts:
  "get_burst_length 1 2 = 1" "get_burst_length 2 2 = 1" "get_burst_length 3 2 = 2"
  by code_simp+

lemma success_example_rotation: "rotate_right 3 6 (Suc 0) = 3"
  by (simp add: rotate_right_def upt_rec [of _ 3] upt_rec [of _ 2] upt_rec [of _ 1])

theorem burst_decode_success_witness:
  "get_syndromes (new_CyclicCode2 [7] [3, 5] 3) 3 = [1, 2, 3] \<and>
   map (\<lambda>s. get_burst_length s 2) [1, 2, 3] = [1, 1, 2] \<and>
   decode_word_2 (new_CyclicCode2 [7] [3, 5] 3) 3 = Some (Inr (0, DecodedSuccessfully))"
proof -
  let ?c = "new_CyclicCode2 [7] [3, 5] 3"
  have syns: "get_syndromes ?c 3 = [1, 2, 3]"
    by (simp only: success_example_code success_example_syndromes)
  have r: "(of_nat (length (parity_check ?c)) :: uint) = 2"
    by simp
  have bl: "get_burst_length ([1, 2, 3] ! j) 2 = [1, 1, 2] ! j" if "j < 3" for j
  proof -
    from that have "j = 0 \<or> j = 1 \<or> j = 2" by auto
    then show ?thesis by (auto simp: success_example_bursts)
  qed
  have le: "(2 :: uint) \<le> 3" "\<not> (3 :: uint) \<le> 2" "(1 :: uint) \<le> 2" "(1 :: uint) \<noteq> 2"
    by (simp_all add: word_le_nat_alt)
  have h1: "code_length ?c \<noteq> 0" "unat (code_length ?c) \<le> 32"
    "length (parity_check ?c) \<le> unat (code_length ?c)" "max_burst_length ?c \<noteq> UINT_MAX"
    by (simp_all add: UINT_MAX_def)
  have h2: "2 < length (get_syndromes ?c 3)"
    unfolding syns by simp
  have h3: "get_burst_length (get_syndromes ?c 3 ! 2) (of_nat (length (parity_check ?c)))
           \<le> max_burst_length ?c"
    unfolding syns r using bl [of 2] le by simp
  have h4: "\<forall>j<length (get_syndromes ?c 3).
           get_burst_length (get_syndromes ?c 3 ! j) (of_nat (length (parity_check ?c)))
             \<le> max_burst_length ?c \<longrightarrow>
           get_burst_length (get_syndromes ?c 3 ! j) (of_nat (length (parity_check ?c)))
             \<le> get_burst_length (get_syndromes ?c 3 ! 2) (of_nat (length (parity_check ?c)))"
  proof (intro allI impI)
    fix j assume "j < length (get_syndromes ?c 3)"
    then have j: "j < 3" unfolding syns by simp
    then have "j = 0 \<or> j = 1 \<or> j = 2" by auto
    then show "get_burst_length (get_syndromes ?c 3 ! j) (of_nat (length (parity_check ?c)))
             \<le> get_burst_length (get_syndromes ?c 3 ! 2) (of_nat (length (parity_check ?c)))"
      unfolding syns r using bl [of j] bl [of 2] le j by auto
  qed
  have h5: "\<forall>j<2. get_burst_length (get_syndromes ?c 3 ! j) (of_nat (length (parity_check ?c)))
             \<noteq> get_burst_length (get_syndromes ?c 3 ! 2) (of_nat (length (parity_check ?c)))"
  proof (intro allI impI)
    fix j :: nat assume "j < 2"
    then have "j = 0 \<or> j = 1" by auto
    then show "get_burst_length (get_syndromes ?c 3 ! j) (of_nat (length (parity_check ?c)))
             \<noteq> get_burst_length (get_syndromes ?c 3 ! 2) (of_nat (length (parity_check ?c)))"
      unfolding syns r using bl [of j] bl [of 2] le by auto
  qed
  have "decode_word_2 ?c 3 = Some (Inr (0, DecodedSuccessfully))"
    using burst_decode_success [OF h1 h2 h3 h4 h5]
    unfolding syns by (simp add: success_example_rotation is_code_word_zero)
  moreover have "map (\<lambda>s. get_burst_length s 2) [1, 2, 3] = [1, 1, 2]"
    by (simp add: success_example_bursts)
  ultimately show ?thesis
    using syns by simp
qed

section \<open>Decoding a code word\<close>

lemma is_code_word_xor_all:
  "\<forall>x\<in>set xs. is_code_word c x \<Longrightarrow> is_code_word c (xor_all xs)"
  unfolding xor_all_def
  by (induction xs) (simp_all add: is_code_word_zero is_code_word_xor)

lemma encode_word_selected: "encode_word c m = xor_all (selected_rows (generator c) m)"
  unfolding encode_word_alt xor_all_def selected_rows_def
  by (subst encode_fold_selected) simp

lemma is_code_word_encode:
  assumes "\<forall>g\<in>set (generator c). is_code_word c g"
  shows "is_code_word c (encode_word c m)"
proof -
  have "set (selected_rows (generator c) m) \<subseteq> set (generator c)"
    by (auto simp: selected_rows_def)
  then show ?thesis
    using assms unfolding encode_word_selected by (intro is_code_word_xor_all) blast
qed

lemma bit_place_values_of_0: "bit_place_values_of 0 n = []"
  by (simp add: bit_place_values_of_eq)

lemma word_of_place_values_Nil: "word_of_place_values [] = 0"
  by (simp add: word_of_place_values_def)

lemma syndromes_1_0:
  "syndromes_1 c w ! 0 = syndrome_of (get_transpose (parity_check c) (code_length c)) w"
  by (simp add: syndromes_1_def Let_def get_cyclic_shifts_eq)

lemma weight_round_trip:
  assumes "length (parity_check c) \<le> 32" "is_code_word c w"
  shows "decode_word c w = Inr (w, False)"
proof -
  let ?syns = "syndromes_1 c w"
  let ?bound = "(min_distance c - 1) div 2"
  have s0: "?syns ! 0 = 0"
    using syndrome_of_code_word [OF assms] by (simp add: syndromes_1_0)
  have len: "0 < length ?syns"
    by (simp add: length_syndromes_1)
  have "hamming_distance c 0 (?syns ! 0) = 0"
    unfolding s0 by (simp add: hamming_distance_eq weight_count_def)
  then have "hamming_distance c 0 (?syns ! 0) \<le> ?bound"
    by simp
  then have scan: "scan_weight c ?syns ?bound (False, 0) = (True, 0)"
    using len by (intro scan_weight_first) simp_all
  show ?thesis
    unfolding decode_word_def Let_def scan
    using assms(2)
    by (simp add: s0 bit_place_values_of_0 word_of_place_values_Nil)
qed

lemma get_cyclic_shifts_0_all: "x \<in> set (get_cyclic_shifts 0 nw) \<Longrightarrow> x = 0"
  by (auto simp: get_cyclic_shifts_eq bit_place_values_of_0 word_of_place_values_Nil)

lemma burst_fold_zero:
  assumes "cs \<noteq> []" "\<forall>x\<in>set cs. x = (0 :: uint)"
  shows "fold (\<lambda>j burst_length.
                 if bit_place_values_of (cs ! j) n \<noteq> []
                 then (if g j < burst_length then g j else burst_length)
                 else 0)
              [0..<length cs] b = (0 :: uint)"
proof -
  have "fold (\<lambda>j burst_length.
                 if bit_place_values_of (cs ! j) n \<noteq> []
                 then (if g j < burst_length then g j else burst_length)
                 else 0)
              [0..<length cs] b = fold (\<lambda>j burst_length. 0) [0..<length cs] b"
  proof (rule fold_cong [OF refl refl])
    fix j assume "j \<in> set [0..<length cs]"
    then have "cs ! j = 0" using assms(2) by simp
    then show "(\<lambda>burst_length.
                 if bit_place_values_of (cs ! j) n \<noteq> []
                 then (if g j < burst_length then g j else burst_length)
                 else 0) = (\<lambda>burst_length. 0)"
      by (simp add: bit_place_values_of_0)
  qed
  also have "\<dots> = 0"
    using assms(1) by (cases cs rule: rev_cases) simp_all
  finally show ?thesis .
qed

lemma get_burst_length_0: "get_burst_length 0 rw = 0"
  unfolding get_burst_length_def Let_def
  by (rule burst_fold_zero) (auto simp: get_cyclic_shifts_nonempty dest: get_cyclic_shifts_0_all)

lemma shift_syndrome_0:
  assumes "shift_amount \<noteq> UINT_MAX"
  shows "shift_syndrome c 0 shift_amount = Some 0"
proof -
  have "(shift_step c ^^ a) 0 = 0" for a
    by (induction a) (simp_all add: shift_step_eq)
  then show ?thesis
    by (simp add: shift_syndrome_returns [OF assms])
qed

lemma burst_round_trip:
  assumes "length (parity_check c) \<le> 32" "max_burst_length c \<noteq> UINT_MAX"
    and "\<forall>s\<in>set (get_cyclic_shifts w (code_length c)). is_code_word c s"
    and "code_length c \<noteq> UINT_MAX"
  shows "decode_word_2 c w = Some (Inr (w, DecodedSuccessfully))"
proof -
  let ?cs = "get_cyclic_shifts w (code_length c)"
  let ?rcs = "?cs ! 0 # map (\<lambda>i. ?cs ! i) (rev [1..<length ?cs])"
  let ?T = "get_transpose (parity_check c) (code_length c)"
  let ?syns = "get_syndromes c w"
  let ?bls = "map (\<lambda>s. get_burst_length s (of_nat (length (parity_check c)))) ?syns"
  let ?st0 = "\<lparr>found_syndrome = False, light_syndrome = 0, light_syndrome_pos = 0,
            which_syndrome = 0, scans = []\<rparr>"
  have ne: "?cs \<noteq> []" by (rule get_cyclic_shifts_nonempty)
  have "set ?rcs \<subseteq> set ?cs"
    using ne by (auto simp: in_set_conv_nth)
  then have "\<forall>x\<in>set ?rcs. syndrome_of ?T x = 0"
    using assms(3) syndrome_of_code_word [OF assms(1)] by blast
  moreover have e: "?syns = map (syndrome_of ?T) ?rcs"
    by (simp only: get_syndromes_def Let_def)
  ultimately have zero: "\<forall>s\<in>set ?syns. s = 0"
    by (simp only: e set_map) blast
  have len: "0 < length ?syns"
    by (simp add: length_get_syndromes)
  have nth0: "?syns ! j = 0" if "j < length ?syns" for j
    using zero that by (meson nth_mem)
  have w: "is_code_word c w"
    using assms(3) ne get_cyclic_shifts_0 [of w "code_length c"]
    by (metis nth_mem length_greater_0_conv)
  have bl: "?bls ! j = 0" if "j < length ?syns" for j
    using that nth0 [OF that] by (simp add: get_burst_length_0)
  have "found_syndrome (outer_search ?syns ?bls (max_burst_length c) ?st0) \<and>
      light_syndrome (outer_search ?syns ?bls (max_burst_length c) ?st0) = ?syns ! 0 \<and>
      light_syndrome_pos (outer_search ?syns ?bls (max_burst_length c) ?st0) = 0"
    using assms(2) len bl by (intro outer_search_pick) simp_all
  then have st: "found_syndrome (burst_search c w)" "light_syndrome (burst_search c w) = 0"
    "light_syndrome_pos (burst_search c w) = 0"
    using nth0 [OF len] by (simp_all add: burst_search_def Let_def)
  show ?thesis
    unfolding decode_word_2_def Let_def
    using w ne by (simp add: st shift_syndrome_0 [OF assms(4)])
qed


lemma rotate_left_Suc:
  assumes "n \<le> 32"
  shows "rotate_left n (rotate_left n w i) 1 = rotate_left n w (Suc i)"
proof (rule bit_eqI)
  fix q
  show "bit (rotate_left n (rotate_left n w i) 1) q = bit (rotate_left n w (Suc i)) q"
  proof (cases "q < n")
    case False
    then show ?thesis by (simp add: bit_rotate_left)
  next
    case True
    define p1 where "p1 = (q + n - 1 mod n) mod n"
    define p2 where "p2 = (p1 + n - i mod n) mod n"
    have p1: "p1 < n" and p2: "p2 < n"
      using True by (simp_all add: p1_def p2_def)
    have s1: "(p1 + 1) mod n = q"
      using mod_shift_iff [OF p1, of 1 q] True by (simp add: p1_def)
    have s2: "(p2 + i) mod n = p1"
      using mod_shift_iff [OF p2, of i p1] p1 by (simp add: p2_def)
    have "(p2 + Suc i) mod n = ((p2 + i) mod n + 1) mod n"
      by (simp add: mod_Suc_eq)
    also have "\<dots> = q"
      by (simp only: s2 s1)
    finally have "p2 = (q + n - Suc i mod n) mod n"
      using mod_shift_iff [OF p2, of "Suc i" q] by simp
    moreover have "bit (rotate_left n (rotate_left n w i) 1) q = bit w p2"
    proof -
      have "bit (rotate_left n (rotate_left n w i) 1) q \<longleftrightarrow>
            q < n \<and> q < 32 \<and> bit (rotate_left n w i) p1"
        unfolding p1_def by (rule bit_rotate_left)
      moreover have "bit (rotate_left n w i) p1 \<longleftrightarrow> p1 < n \<and> p1 < 32 \<and> bit w p2"
        unfolding p2_def by (rule bit_rotate_left)
      moreover have "q < 32" "p1 < 32"
        using True p1 assms by simp_all
      ultimately show ?thesis
        using True p1 by simp
    qed
    moreover have "bit (rotate_left n w (Suc i)) q = bit w ((q + n - Suc i mod n) mod n)"
      using True assms by (simp add: bit_rotate_left)
    ultimately show ?thesis
      by simp
  qed
qed

lemma cyclic_code_rotations:
  assumes "cyclic_code c" "unat (code_length c) \<le> 32" "is_code_word c w"
  shows "is_code_word c (rotate_left (unat (code_length c)) w (Suc j))"
proof (induction j)
  case 0
  show ?case
    using assms(1,3) by (simp add: cyclic_code_def)
next
  case (Suc j)
  then have "is_code_word c
      (rotate_left (unat (code_length c)) (rotate_left (unat (code_length c)) w (Suc j)) 1)"
    using assms(1) by (simp only: cyclic_code_def)
  then show ?case
    by (simp only: rotate_left_Suc [OF assms(2)])
qed

lemma cyclic_code_shifts:
  assumes "cyclic_code c" "unat (code_length c) \<le> 32" "is_code_word c w"
  shows "\<forall>s\<in>set (get_cyclic_shifts w (code_length c)). is_code_word c s"
proof
  fix s assume "s \<in> set (get_cyclic_shifts w (code_length c))"
  then obtain j where j: "j < length (get_cyclic_shifts w (code_length c))"
    "s = get_cyclic_shifts w (code_length c) ! j"
    by (auto simp: in_set_conv_nth)
  show "is_code_word c s"
  proof (cases j)
    case 0
    then show ?thesis
      using j(2) assms(3) by (simp add: get_cyclic_shifts_0)
  next
    case (Suc k)
    then have "j < unat (code_length c)"
      using j(1) by (simp add: length_get_cyclic_shifts)
    then have "s = rotate_left (unat (code_length c)) w (Suc k)"
      using j(2) Suc assms(2) by (simp add: get_cyclic_shifts_nth)
    then show ?thesis
      using cyclic_code_rotations [OF assms] by simp
  qed
qed

lemma parity_with_take_bit_right: "parity_with n h (take_bit n w) = parity_with n h w"
proof -
  have "filter (\<lambda>i. bit (take_bit n w AND h) i) [0..<n] = filter (\<lambda>i. bit (w AND h) i) [0..<n]"
    by (rule filter_cong) (auto simp: bit_and_iff bit_take_bit_iff)
  then show ?thesis
    by (simp add: parity_with_def weight_count_def)
qed

lemma rotate_left_take_bit: "rotate_left n (take_bit n w) i = rotate_left n w i"
proof (rule bit_eqI)
  fix q
  show "bit (rotate_left n (take_bit n w) i) q = bit (rotate_left n w i) q"
    by (cases "q < n") (simp_all add: bit_rotate_left bit_take_bit_iff)
qed

lemma is_code_word_new_CyclicCode2:
  "is_code_word \<lparr>generator = G, parity_check = H, code_words = [], code_length = n,
     min_distance = 0, max_burst_length = 0\<rparr> w = is_code_word (new_CyclicCode2 G H n) w"
  by (rule is_code_word_fields) simp_all

lemma set_code_words_new_CyclicCode2:
  assumes "unat n < 32"
  shows "set (code_words (new_CyclicCode2 G H n)) =
         {w. unat w < 2 ^ unat n \<and> is_code_word (new_CyclicCode2 G H n) w}"
proof -
  have "unat (code_length \<lparr>generator = G, parity_check = H, code_words = [], code_length = n,
     min_distance = 0, max_burst_length = 0\<rparr>) < 32"
    using assms by simp
  from make_code_words_facts(1) [OF this] show ?thesis
    by (simp only: code_words_new_CyclicCode2 is_code_word_new_CyclicCode2
        CyclicCode.select_convs)
qed

lemma cyclic_code_new_CyclicCode2I:
  assumes "unat n < 32"
    and "\<forall>w\<in>set (code_words (new_CyclicCode2 G H n)).
           is_code_word (new_CyclicCode2 G H n) (rotate_left (unat n) w 1)"
  shows "cyclic_code (new_CyclicCode2 G H n)"
  unfolding cyclic_code_def
proof (intro allI impI)
  let ?c = "new_CyclicCode2 G H n"
  fix w assume w: "is_code_word ?c w"
  have "is_code_word ?c (take_bit (unat n) w)"
    using w by (simp add: is_code_word_parity parity_with_take_bit_right)
  moreover have "unat (take_bit (unat n) w) < 2 ^ unat n"
    by (rule unat_take_bit_less)
  ultimately have "take_bit (unat n) w \<in> set (code_words ?c)"
    unfolding set_code_words_new_CyclicCode2 [OF assms(1)] by simp
  then have "is_code_word ?c (rotate_left (unat n) (take_bit (unat n) w) 1)"
    using assms(2) by blast
  then show "is_code_word ?c (rotate_left (unat (code_length ?c)) w 1)"
    by (simp add: rotate_left_take_bit)
qed

lemma make_code_words_fields:
  assumes "parity_check c = parity_check c'" "code_length c = code_length c'"
  shows "make_code_words c = make_code_words c'"
proof -
  have "is_code_word c = is_code_word c'"
    using is_code_word_fields [OF assms] by (rule ext)
  then show ?thesis
    by (simp add: make_code_words_def assms(2))
qed

lemma make_min_distance_fields:
  assumes "code_length c = code_length c'"
  shows "make_min_distance c cws = make_min_distance c' cws"
proof -
  have h: "hamming_distance c = hamming_distance c'"
    by (intro ext) (simp add: hamming_distance_def assms)
  show ?thesis
    unfolding make_min_distance_def h by (rule refl)
qed

lemma new_CyclicCode2_eq:
  "new_CyclicCode2 G H n =
   \<lparr>generator = G, parity_check = H, code_words = code_words (new_CyclicCode G H n),
    code_length = n, min_distance = min_distance (new_CyclicCode G H n),
    max_burst_length = 3\<rparr>"
proof -
  let ?c0 = "\<lparr>generator = G, parity_check = H, code_words = [], code_length = n,
     min_distance = 0\<rparr>"
  let ?c2 = "\<lparr>generator = G, parity_check = H, code_words = [], code_length = n,
     min_distance = 0, max_burst_length = 0\<rparr>"
  have cw: "make_code_words ?c2 = make_code_words ?c0"
    by (rule make_code_words_fields) simp_all
  have md: "make_min_distance ?c2 cws = make_min_distance ?c0 cws" for cws
    by (rule make_min_distance_fields) simp
  show ?thesis
    by (simp add: new_CyclicCode2_def new_CyclicCode_def Let_def cw md)
qed

text \<open>
  Claim C1. The codes of this class are cyclic codes. For a cyclic code whose generator
  rows pass the parity checks, with at most 32 parity rows, and for every message \<open>m\<close>:
  \<open>decode_word\<close> of \<open>cyclic_codes.h\<close> returns \<open>encode_word(m)\<close> itself and prints no
  diagnostics (this part does not use that the code is cyclic), and \<open>decode_word\<close> of
  \<open>cyclic_codes_2.h\<close>, with \<open>max_burst_length\<close> 3 as the constructor sets it and a code
  length of at most 32, returns \<open>encode_word(m)\<close> itself and prints that the word was
  decoded successfully.
\<close>

theorem round_trip:
  assumes "length (parity_check cA) \<le> 32"
    and "\<forall>g\<in>set (generator cA). is_code_word cA g"
    and "length (parity_check cB) \<le> 32"
    and "\<forall>g\<in>set (generator cB). is_code_word cB g"
    and "max_burst_length cB = 3"
    and "unat (code_length cB) \<le> 32"
    and "cyclic_code cB"
  shows "decode_word cA (encode_word cA m) = Inr (encode_word cA m, False) \<and>
         decode_word_2 cB (encode_word cB m) =
           Some (Inr (encode_word cB m, DecodedSuccessfully))"
proof
  show "decode_word cA (encode_word cA m) = Inr (encode_word cA m, False)"
    using assms(1) is_code_word_encode [OF assms(2)] by (rule weight_round_trip)
  have "max_burst_length cB \<noteq> UINT_MAX"
    using assms(5) by (simp add: UINT_MAX_def)
  moreover have "unat (code_length cB) \<noteq> unat UINT_MAX"
    using assms(6) by (simp add: unat_UINT_MAX)
  then have "code_length cB \<noteq> UINT_MAX"
    by auto
  moreover have "\<forall>s\<in>set (get_cyclic_shifts (encode_word cB m) (code_length cB)).
      is_code_word cB s"
    using assms(7,6) is_code_word_encode [OF assms(4)] by (rule cyclic_code_shifts)
  ultimately show "decode_word_2 cB (encode_word cB m) =
      Some (Inr (encode_word cB m, DecodedSuccessfully))"
    using assms(3) by (intro burst_round_trip)
qed

text \<open>
  The cyclic Hamming code of length 7: the message 1 is encoded as \<open>0001011\<close>, whose seven
  rotations are seven different code words.
\<close>

lemma hamming_example_code_2:
  "new_CyclicCode2 [88, 44, 22, 11] [116, 58, 29] 7 =
   \<lparr>generator = [88, 44, 22, 11], parity_check = [116, 58, 29],
    code_words = [0, 11, 22, 29, 39, 44, 49, 58, 69, 78, 83, 88, 98, 105, 116, 127],
    code_length = 7, min_distance = 3, max_burst_length = 3\<rparr>"
  by (simp add: new_CyclicCode2_eq hamming_example_code)

lemma hamming_example_rotations:
  "is_code_word \<lparr>generator = [88, 44, 22, 11], parity_check = [116, 58, 29],
    code_words = [0, 11, 22, 29, 39, 44, 49, 58, 69, 78, 83, 88, 98, 105, 116, 127],
    code_length = 7, min_distance = 3, max_burst_length = 3\<rparr> (rotate_left 7 w (Suc 0))"
  if "w \<in> set [0, 11, 22, 29, 39, 44, 49, 58, 69, 78, 83, 88, 98, 105, 116, 127]"
proof -
  let ?c = "\<lparr>generator = [88, 44, 22, 11], parity_check = [116, 58, 29],
    code_words = [0, 11, 22, 29, 39, 44, 49, 58, 69, 78, 83, 88, 98, 105, 116, 127],
    code_length = 7, min_distance = 3, max_burst_length = 3\<rparr>"
  have "is_code_word ?c (rotate_left 7 0 (Suc 0))" "is_code_word ?c (rotate_left 7 11 (Suc 0))"
    "is_code_word ?c (rotate_left 7 22 (Suc 0))" "is_code_word ?c (rotate_left 7 29 (Suc 0))"
    "is_code_word ?c (rotate_left 7 39 (Suc 0))" "is_code_word ?c (rotate_left 7 44 (Suc 0))"
    "is_code_word ?c (rotate_left 7 49 (Suc 0))" "is_code_word ?c (rotate_left 7 58 (Suc 0))"
    "is_code_word ?c (rotate_left 7 69 (Suc 0))" "is_code_word ?c (rotate_left 7 78 (Suc 0))"
    "is_code_word ?c (rotate_left 7 83 (Suc 0))" "is_code_word ?c (rotate_left 7 88 (Suc 0))"
    "is_code_word ?c (rotate_left 7 98 (Suc 0))" "is_code_word ?c (rotate_left 7 105 (Suc 0))"
    "is_code_word ?c (rotate_left 7 116 (Suc 0))" "is_code_word ?c (rotate_left 7 127 (Suc 0))"
    by code_simp+
  then show ?thesis
    using that by auto
qed

lemma hamming_example_checks:
  "is_code_word \<lparr>generator = [88, 44, 22, 11], parity_check = [116, 58, 29],
    code_words = [0, 11, 22, 29, 39, 44, 49, 58, 69, 78, 83, 88, 98, 105, 116, 127],
    code_length = 7, min_distance = 3\<rparr> 88"
  "is_code_word \<lparr>generator = [88, 44, 22, 11], parity_check = [116, 58, 29],
    code_words = [0, 11, 22, 29, 39, 44, 49, 58, 69, 78, 83, 88, 98, 105, 116, 127],
    code_length = 7, min_distance = 3\<rparr> 44"
  "is_code_word \<lparr>generator = [88, 44, 22, 11], parity_check = [116, 58, 29],
    code_words = [0, 11, 22, 29, 39, 44, 49, 58, 69, 78, 83, 88, 98, 105, 116, 127],
    code_length = 7, min_distance = 3\<rparr> 22"
  "is_code_word \<lparr>generator = [88, 44, 22, 11], parity_check = [116, 58, 29],
    code_words = [0, 11, 22, 29, 39, 44, 49, 58, 69, 78, 83, 88, 98, 105, 116, 127],
    code_length = 7, min_distance = 3\<rparr> 11"
  "encode_word \<lparr>generator = [88, 44, 22, 11], parity_check = [116, 58, 29],
    code_words = [0, 11, 22, 29, 39, 44, 49, 58, 69, 78, 83, 88, 98, 105, 116, 127],
    code_length = 7, min_distance = 3\<rparr> 1 = 11"
  "is_code_word \<lparr>generator = [88, 44, 22, 11], parity_check = [116, 58, 29],
    code_words = [0, 11, 22, 29, 39, 44, 49, 58, 69, 78, 83, 88, 98, 105, 116, 127],
    code_length = 7, min_distance = 3, max_burst_length = 3\<rparr> 88"
  "is_code_word \<lparr>generator = [88, 44, 22, 11], parity_check = [116, 58, 29],
    code_words = [0, 11, 22, 29, 39, 44, 49, 58, 69, 78, 83, 88, 98, 105, 116, 127],
    code_length = 7, min_distance = 3, max_burst_length = 3\<rparr> 44"
  "is_code_word \<lparr>generator = [88, 44, 22, 11], parity_check = [116, 58, 29],
    code_words = [0, 11, 22, 29, 39, 44, 49, 58, 69, 78, 83, 88, 98, 105, 116, 127],
    code_length = 7, min_distance = 3, max_burst_length = 3\<rparr> 22"
  "is_code_word \<lparr>generator = [88, 44, 22, 11], parity_check = [116, 58, 29],
    code_words = [0, 11, 22, 29, 39, 44, 49, 58, 69, 78, 83, 88, 98, 105, 116, 127],
    code_length = 7, min_distance = 3, max_burst_length = 3\<rparr> 11"
  "encode_word \<lparr>generator = [88, 44, 22, 11], parity_check = [116, 58, 29],
    code_words = [0, 11, 22, 29, 39, 44, 49, 58, 69, 78, 83, 88, 98, 105, 116, 127],
    code_length = 7, min_distance = 3, max_burst_length = 3\<rparr> 1 = 11"
  "get_cyclic_shifts 11 7 = [11, 22, 44, 88, 49, 98, 69]"
  by code_simp+

lemma hamming_example_cyclic:
  "cyclic_code (new_CyclicCode2 [88, 44, 22, 11] [116, 58, 29] 7)"
proof (rule cyclic_code_new_CyclicCode2I)
  show "unat (7 :: uint) < 32" by simp
  show "\<forall>w\<in>set (code_words (new_CyclicCode2 [88, 44, 22, 11] [116, 58, 29] 7)).
      is_code_word (new_CyclicCode2 [88, 44, 22, 11] [116, 58, 29] 7)
        (rotate_left (unat (7 :: uint)) w 1)"
    using hamming_example_rotations by (simp add: hamming_example_code_2)
qed

theorem round_trip_witness:
  "cyclic_code (new_CyclicCode2 [88, 44, 22, 11] [116, 58, 29] 7) \<and>
   encode_word (new_CyclicCode [88, 44, 22, 11] [116, 58, 29] 7) 1 = 11 \<and>
   get_cyclic_shifts 11 7 = [11, 22, 44, 88, 49, 98, 69] \<and>
   decode_word (new_CyclicCode [88, 44, 22, 11] [116, 58, 29] 7) 11 = Inr (11, False) \<and>
   encode_word (new_CyclicCode2 [88, 44, 22, 11] [116, 58, 29] 7) 1 = 11 \<and>
   decode_word_2 (new_CyclicCode2 [88, 44, 22, 11] [116, 58, 29] 7) 11 =
     Some (Inr (11, DecodedSuccessfully))"
proof -
  let ?cA = "new_CyclicCode [88, 44, 22, 11] [116, 58, 29] 7"
  let ?cB = "new_CyclicCode2 [88, 44, 22, 11] [116, 58, 29] 7"
  have eA: "encode_word ?cA 1 = 11" and eB: "encode_word ?cB 1 = 11"
    by (simp_all add: hamming_example_code hamming_example_code_2 hamming_example_checks)
  have h1: "length (parity_check ?cA) \<le> 32" "\<forall>g\<in>set (generator ?cA). is_code_word ?cA g"
    by (simp_all add: hamming_example_code hamming_example_checks)
  have h2: "length (parity_check ?cB) \<le> 32" "\<forall>g\<in>set (generator ?cB). is_code_word ?cB g"
    "max_burst_length ?cB = 3" "unat (code_length ?cB) \<le> 32"
    by (simp_all add: hamming_example_code_2 hamming_example_checks)
  note h3 = hamming_example_cyclic
  from round_trip [OF h1 h2 h3, of 1] show ?thesis
    using h3 eA eB by (simp add: hamming_example_checks)
qed

text \<open>
  The burst decoder relies on the code being cyclic. On length 3 the parity row \<open>001\<close>
  gives the code words \<open>000\<close>, \<open>010\<close>, \<open>100\<close> and \<open>110\<close>, which are not closed under rotation;
  with the generator rows \<open>100\<close> and \<open>010\<close> the message 1 is encoded as \<open>010\<close> and decoded
  as \<open>011\<close>.
\<close>

lemma round_trip_example_checks:
  "is_code_word \<lparr>generator = [4, 2], parity_check = [1], code_words = [0, 2, 4, 6],
     code_length = 3, min_distance = 1, max_burst_length = 3\<rparr> 4"
  "is_code_word \<lparr>generator = [4, 2], parity_check = [1], code_words = [0, 2, 4, 6],
     code_length = 3, min_distance = 1, max_burst_length = 3\<rparr> 2"
  "encode_word \<lparr>generator = [4, 2], parity_check = [1], code_words = [0, 2, 4, 6],
     code_length = 3, min_distance = 1, max_burst_length = 3\<rparr> 1 = 2"
  "\<not> is_code_word \<lparr>generator = [4, 2], parity_check = [1], code_words = [0, 2, 4, 6],
     code_length = 3, min_distance = 1, max_burst_length = 3\<rparr> (rotate_left 3 4 (Suc 0))"
  by code_simp+

lemma round_trip_example_decode:
  "decode_word_2 \<lparr>generator = [4, 2], parity_check = [1], code_words = [0, 2, 4, 6],
     code_length = 3, min_distance = 1, max_burst_length = 3\<rparr> 2 =
   Some (Inr (3, FailedToDecode))"
  by code_simp

lemma burst_round_trip_needs_cyclic:
  "\<not> cyclic_code (new_CyclicCode2 [4, 2] [1] 3) \<and>
   is_code_word (new_CyclicCode2 [4, 2] [1] 3) 4 \<and>
   is_code_word (new_CyclicCode2 [4, 2] [1] 3) 2 \<and>
   encode_word (new_CyclicCode2 [4, 2] [1] 3) 1 = 2 \<and>
   decode_word_2 (new_CyclicCode2 [4, 2] [1] 3) (encode_word (new_CyclicCode2 [4, 2] [1] 3) 1) =
     Some (Inr (3, FailedToDecode))"
proof -
  have "\<not> cyclic_code (new_CyclicCode2 [4, 2] [1] 3)"
  proof
    assume "cyclic_code (new_CyclicCode2 [4, 2] [1] 3)"
    then have "is_code_word (new_CyclicCode2 [4, 2] [1] 3) 4 \<longrightarrow>
        is_code_word (new_CyclicCode2 [4, 2] [1] 3)
          (rotate_left (unat (code_length (new_CyclicCode2 [4, 2] [1] 3))) 4 1)"
      unfolding cyclic_code_def by blast
    then show False
      by (simp add: example_code_2 round_trip_example_checks)
  qed
  then show ?thesis
    by (simp add: example_code_2 round_trip_example_checks round_trip_example_decode)
qed

end
